theory Spec2Isabelle
  imports Main "HOL-Library.Signed_Division"
begin

section \<open>Data model of p4est\_trimesh.c\<close>

text \<open>
  The embedding follows the build with \<^verbatim>\<open>P4EST_ENABLE_MPI\<close> and
  \<^verbatim>\<open>P4EST_ENABLE_DEBUG\<close>: every \<^verbatim>\<open>P4EST_ASSERT\<close> is a branch that
  aborts, carrying the text of the asserted expression. \<^verbatim>\<open>p4est_locidx_t\<close> (32 bit)
  and \<^verbatim>\<open>p4est_gloidx_t\<close> (64 bit) are modelled as \<open>int\<close>. The constructor asserts
  that elements times slots fit \<^verbatim>\<open>P4EST_LOCIDX_MAX\<close>, which bounds the slot positions
  of its array; the counters stay below that number as long as each increment comes with
  a store to a fresh slot (lemma \<open>counters_fit_locidx\<close>); the prefix sum of at most \<open>2^31\<close>
  counts stays below \<open>2^63\<close> (lemma \<open>goffset_fits_gloidx\<close>). Two products are bounded by
  no check of the code, the position on the owner of a ghost's face node (line 295) and
  the bound of the received positions (line 490): there the 32-bit result is written out
  with \<open>wrap32\<close>.
\<close>

datatype abort =
    Assertion string   \<comment> \<open>a failed \<^verbatim>\<open>P4EST_ASSERT\<close>, with the asserted expression\<close>
  | Abort string       \<comment> \<open>\<^verbatim>\<open>SC_CHECK_ABORT\<close>, \<^verbatim>\<open>SC_ABORT_NOT_REACHED\<close>\<close>
  | Bounds string      \<comment> \<open>an index outside the array it is applied to\<close>

definition in_bounds :: "'a list \<Rightarrow> int \<Rightarrow> bool" where
  "in_bounds xs i \<longleftrightarrow> 0 \<le> i \<and> i < int (length xs)"

definition P4EST_FACES :: int where
  "P4EST_FACES = 4"

text \<open>
  \<^verbatim>\<open>P4EST_CONNECT_FACE\<close> is declared in p4est\_connectivity.h, which is not among the
  sources; the code only compares \<^verbatim>\<open>fi->tree_boundary\<close> with it.
\<close>

definition P4EST_CONNECT_FACE :: int where
  "P4EST_CONNECT_FACE = 21"

definition P4EST_LOCIDX_MAX :: int where
  "P4EST_LOCIDX_MAX = 2147483647"

text \<open>
  The value of a 32-bit signed computation whose exact result is \<open>x\<close>. C leaves a signed
  overflow undefined; the model takes the result that wraps around, as two's-complement
  machines compute it.
\<close>

definition wrap32 :: "int \<Rightarrow> int" where
  "wrap32 x = (x + 2147483648) mod 4294967296 - 2147483648"

record trimesh_peer_t =
  rank :: int
  done_flag :: int
  lastadd :: int
  bufcount :: int
  localind :: "int list"
  querypos :: "int list"

datatype mpi_tag = P4EST_COMM_TNODES_QUERY | P4EST_COMM_TNODES_REPLY

datatype mpi_request =
    Request_null
  | Irecv int int mpi_tag          \<comment> \<open>count, source rank, tag\<close>
  | Isend "int list" int mpi_tag   \<comment> \<open>payload, destination rank, tag\<close>

record p4est_t =
  p4est_mpisize :: int
  p4est_mpirank :: int
  local_num_quadrants :: int
  quadrants_offset :: "int list"   \<comment> \<open>\<^verbatim>\<open>tree->quadrants_offset\<close> of every tree\<close>

record ghost_quadrant =
  which_tree :: int
  local_num :: int

record p4est_ghost_t =
  ghosts :: "ghost_quadrant list"
  proc_offsets :: "int list"

record p4est_lnodes_t =
  vnodes :: int
  num_local_elements :: int
  face_code :: "int list"
  element_nodes :: "int list"
  owned_count :: int
  global_owned_count :: "int list"
  global_offset :: int
  written :: "int list"   \<comment> \<open>not a field of the C structure: the positions of
                              \<^verbatim>\<open>element_nodes\<close> stored to so far, in order\<close>

record trimesh_meta_t =
  with_faces :: bool
  mpisize :: int
  mpirank :: int
  ghost_rank :: "int list option"
  proc_peer :: "int list option"
  remotepos :: "int list"
  peers :: "trimesh_peer_t list"
  pereq :: "mpi_request list"
  lenum :: int
  num_owned :: int
  num_shared :: int
  goffset :: "int list option"
  p4est :: p4est_t
  ghost :: "p4est_ghost_t option"
  lnodes :: p4est_lnodes_t         \<comment> \<open>\<^verbatim>\<open>me->tm->lnodes\<close>\<close>
  posted :: "mpi_request list"     \<comment> \<open>every operation handed to MPI, in order\<close>

datatype face_side_data =
    Full bool int                  \<comment> \<open>\<^verbatim>\<open>is.full\<close>: is\_ghost, quadid\<close>
  | Hanging "bool list" "int list" \<comment> \<open>\<^verbatim>\<open>is.hanging\<close>: is\_ghost[2], quadid[2]\<close>

record p4est_iter_face_side_t =
  treeid :: int
  face :: int
  side_data :: face_side_data

record p4est_iter_face_info_t =
  sides :: "p4est_iter_face_side_t list"
  orientation :: int
  tree_boundary :: int

record p4est_iter_volume_info_t =
  vi_treeid :: int
  vi_quadid :: int

definition is_hanging :: "p4est_iter_face_side_t \<Rightarrow> bool" where
  "is_hanging fs = (case side_data fs of Full _ _ \<Rightarrow> False | Hanging _ _ \<Rightarrow> True)"

section \<open>Slot setters\<close>

text \<open>
  The two setters are the only places that store to \<^verbatim>\<open>element_nodes\<close>; each store
  is also recorded in \<open>written\<close>.
\<close>

definition set_lnodes_corner_center ::
  "p4est_lnodes_t \<Rightarrow> int \<Rightarrow> int \<Rightarrow> abort + p4est_lnodes_t" where
  "set_lnodes_corner_center ln le lni =
    (if \<not> (vnodes ln = 9 \<or> vnodes ln = 25)
       then Inl (Assertion ''ln->vnodes == 9 || ln->vnodes == 25'')
     else if \<not> (0 \<le> le \<and> le < num_local_elements ln)
       then Inl (Assertion ''0 <= le && le < ln->num_local_elements'')
     else let lpos = le * vnodes ln + 0 in
       if \<not> in_bounds (element_nodes ln) lpos
         then Inl (Bounds ''ln->element_nodes[lpos]'')
       else if element_nodes ln ! nat lpos \<noteq> 0
         then Inl (Assertion ''ln->element_nodes[lpos] == 0'')
       else Inr (ln\<lparr>element_nodes := (element_nodes ln)[nat lpos := lni],
                    written := written ln @ [lpos]\<rparr>))"

definition pos_lnodes_face_full :: "int \<Rightarrow> abort + int" where
  "pos_lnodes_face_full f =
    (if \<not> (0 \<le> f \<and> f < P4EST_FACES)
       then Inl (Assertion ''0 <= face && face < P4EST_FACES'')
     else Inr (9 + 8 + 2 * f))"

definition set_lnodes_face_full ::
  "trimesh_meta_t \<Rightarrow> int \<Rightarrow> int \<Rightarrow> int \<Rightarrow> abort + trimesh_meta_t" where
  "set_lnodes_face_full me le f lni =
    (let ln = lnodes me in
     if vnodes ln \<noteq> 25
       then Inl (Assertion ''ln->vnodes == 25'')
     else if \<not> (0 \<le> le \<and> le < num_local_elements ln)
       then Inl (Assertion ''0 <= le && le < ln->num_local_elements'')
     else if \<not> (0 \<le> f \<and> f < P4EST_FACES)
       then Inl (Assertion ''0 <= face && face < P4EST_FACES'')
     else case pos_lnodes_face_full f of
       Inl e \<Rightarrow> Inl e
     | Inr fpos \<Rightarrow>
       let lpos = le * vnodes ln + fpos in
       if \<not> in_bounds (element_nodes ln) lpos
         then Inl (Bounds ''ln->element_nodes[lpos]'')
       else if element_nodes ln ! nat lpos \<noteq> 0
         then Inl (Assertion ''ln->element_nodes[lpos] == 0'')
       else if \<not> in_bounds (element_nodes ln) (lpos + 1)
         then Inl (Bounds ''ln->element_nodes[lpos + 1]'')
       else if element_nodes ln ! nat (lpos + 1) \<noteq> 0
         then Inl (Assertion ''ln->element_nodes[lpos + 1] == 0'')
       else
         let me1 = me\<lparr>lnodes := ln\<lparr>element_nodes := (element_nodes ln)[nat lpos := lni],
                                      written := written ln @ [lpos]\<rparr>\<rparr>
         in Inr (if lni < 0 then me1\<lparr>remotepos := remotepos me1 @ [lpos]\<rparr> else me1))"

section \<open>Peer records\<close>

definition new_peer :: "int \<Rightarrow> trimesh_peer_t" where
  "new_peer q = \<lparr>rank = q, done_flag = 0, lastadd = 0, bufcount = 0,
                 localind = [], querypos = []\<rparr>"

text \<open>
  \<^verbatim>\<open>peer_access\<close> returns a pointer into \<^verbatim>\<open>me->peers\<close>; the model returns the
  index of that record together with the updated context.
\<close>

definition peer_access :: "trimesh_meta_t \<Rightarrow> int \<Rightarrow> abort + (trimesh_meta_t \<times> nat)" where
  "peer_access me q =
    (case ghost_rank me of
       None \<Rightarrow> Inl (Assertion ''me->ghost_rank != NULL'')
     | Some _ \<Rightarrow>
     (case proc_peer me of
       None \<Rightarrow> Inl (Assertion ''me->proc_peer != NULL'')
     | Some pp \<Rightarrow>
       if \<not> (0 \<le> q \<and> q < mpisize me)
         then Inl (Assertion ''0 <= q && q < me->mpisize'')
       else if q = mpirank me
         then Inl (Assertion ''q != me->mpirank'')
       else if \<not> in_bounds pp q
         then Inl (Bounds ''me->proc_peer[q]'')
       else let pi = pp ! nat q in
         if pi = 0 then
           Inr (me\<lparr>peers := peers me @ [new_peer q],
                    proc_peer := Some (pp[nat q := int (length (peers me)) + 1])\<rparr>,
                length (peers me))
         else if \<not> (0 < pi \<and> pi < mpisize me)
           then Inl (Assertion ''0 < pi && pi < me->mpisize'')
         else if \<not> in_bounds (peers me) (pi - 1)
           then Inl (Bounds ''sc_array_index_int (&me->peers, pi - 1)'')
         else if rank (peers me ! nat (pi - 1)) \<noteq> q
           then Inl (Assertion ''peer->rank == q'')
         else Inr (me, nat (pi - 1))))"

definition peer_add_reply :: "trimesh_peer_t \<Rightarrow> int \<Rightarrow> abort + trimesh_peer_t" where
  "peer_add_reply peer lni =
    (if \<not> lni > 0
       then Inl (Assertion ''lni > 0'')
     else if \<not> lastadd peer \<le> lni
       then Inl (Assertion ''peer->lastadd <= lni'')
     else if lastadd peer \<noteq> lni
       then Inr (peer\<lparr>bufcount := bufcount peer + 1, lastadd := lni\<rparr>)
     else Inr peer)"

definition peer_add_query :: "trimesh_peer_t \<Rightarrow> int \<Rightarrow> int \<Rightarrow> abort + trimesh_peer_t" where
  "peer_add_query peer gpos lni =
    (if \<not> gpos \<ge> 0
       then Inl (Assertion ''gpos >= 0'')
     else if \<not> lni < 0
       then Inl (Assertion ''lni < 0'')
     else if length (localind peer) \<noteq> length (querypos peer)
       then Inl (Assertion ''peer->localind.elem_count == peer->querypos.elem_count'')
     else if \<not> lastadd peer \<ge> lni
       then Inl (Assertion ''peer->lastadd >= lni'')
     else if lastadd peer \<noteq> lni
       then Inr (peer\<lparr>localind := localind peer @ [lni],
                       querypos := querypos peer @ [gpos],
                       lastadd := lni\<rparr>)
     else Inr peer)"

section \<open>Enumeration callbacks\<close>

text \<open>
  A sequence of fallible steps over one state; the first abort ends the run, as the
  process would end.
\<close>

fun run_steps :: "('a \<Rightarrow> 's \<Rightarrow> abort + 's) \<Rightarrow> 'a list \<Rightarrow> 's \<Rightarrow> abort + 's" where
  "run_steps f [] s = Inr s"
| "run_steps f (x # xs) s =
     (case f x s of Inl e \<Rightarrow> Inl e | Inr s' \<Rightarrow> run_steps f xs s')"

definition tree_quadrants_offset :: "trimesh_meta_t \<Rightarrow> int \<Rightarrow> abort + int" where
  "tree_quadrants_offset me t =
    (if \<not> in_bounds (quadrants_offset (p4est me)) t
       then Inl (Bounds ''p4est_tree_array_index (p4est->trees, treeid)'')
     else Inr (quadrants_offset (p4est me) ! nat t))"

definition element_is_zero :: "p4est_lnodes_t \<Rightarrow> int \<Rightarrow> bool" where
  \<comment> \<open>\<^verbatim>\<open>!memcmp (ln->element_nodes + le * ln->vnodes, me->szero, ...)\<close>\<close>
  "element_is_zero ln le \<longleftrightarrow>
     take (nat (vnodes ln)) (drop (nat (le * vnodes ln)) (element_nodes ln))
       = replicate (nat (vnodes ln)) 0"

definition iter_volume1 ::
  "p4est_iter_volume_info_t \<Rightarrow> trimesh_meta_t \<Rightarrow> abort + trimesh_meta_t" where
  "iter_volume1 vi me =
    (let ln = lnodes me in
     case tree_quadrants_offset me (vi_treeid vi) of
       Inl e \<Rightarrow> Inl e
     | Inr off \<Rightarrow>
       if off + vi_quadid vi \<noteq> lenum me
         then Inl (Assertion ''tree->quadrants_offset + vi->quadid == me->lenum'')
       else let le = lenum me; me1 = me\<lparr>lenum := lenum me + 1\<rparr> in
         if \<not> in_bounds (face_code ln) le
           then Inl (Bounds ''ln->face_code[le]'')
         else if face_code ln ! nat le \<noteq> 0
           then Inl (Assertion ''ln->face_code[le] == 0'')
         else if \<not> (0 \<le> vnodes ln \<and> 0 \<le> le * vnodes ln
                    \<and> le * vnodes ln + vnodes ln \<le> int (length (element_nodes ln)))
           then Inl (Bounds ''ln->element_nodes + le * ln->vnodes'')
         else if \<not> element_is_zero ln le
           then Inl (Assertion ''!memcmp (ln->element_nodes + le * ln->vnodes, me->szero, ...)'')
         else case set_lnodes_corner_center ln le (num_owned me1) of
           Inl e \<Rightarrow> Inl e
         | Inr ln' \<Rightarrow> Inr (me1\<lparr>num_owned := num_owned me1 + 1, lnodes := ln'\<rparr>))"

text \<open>
  Lines 281--307: the ownership situation of one full side. The result is the rank
  \<open>q\<close> stored in \<^verbatim>\<open>sharers[0][i]\<close> (\<open>-1\<close> when unknown) and \<^verbatim>\<open>gpos[0][i]\<close>.
  The local \<^verbatim>\<open>is_shared[0]\<close> is written and never read.
\<close>

definition face_side_rank ::
  "trimesh_meta_t \<Rightarrow> p4est_iter_face_side_t \<Rightarrow> abort + (int \<times> int)" where
  "face_side_rank me fs =
    (case side_data fs of
       Hanging _ _ \<Rightarrow> Inl (Assertion ''!fss[i]->is_hanging'')
     | Full is_ghost quadid \<Rightarrow>
       if \<not> is_ghost then Inr (mpirank me, -1)
       else if quadid \<ge> 0 then
         (case ghost me of
            None \<Rightarrow> Inl (Assertion ''me->ghost != NULL'')
          | Some gh \<Rightarrow>
            (case ghost_rank me of
               None \<Rightarrow> Inl (Bounds ''me->ghost_rank[igi]'')
             | Some gr \<Rightarrow>
               if \<not> in_bounds gr quadid
                 then Inl (Bounds ''me->ghost_rank[igi]'')
               else if \<not> in_bounds (ghosts gh) quadid
                 then Inl (Bounds ''sc_array_index (&me->ghost->ghosts, igi)'')
               else let gquad = ghosts gh ! nat quadid in
                 if which_tree gquad \<noteq> treeid fs
                   then Inl (Assertion ''gquad->p.piggy3.which_tree == fss[i]->treeid'')
                 else case pos_lnodes_face_full (face fs) of
                   Inl e \<Rightarrow> Inl e
                 | Inr fpos \<Rightarrow>
                     Inr (gr ! nat quadid,
                          wrap32 (wrap32 (local_num gquad * vnodes (lnodes me)) + fpos))))
       else Inr (-1, -1))"

text \<open>Lines 299--305: the running pair \<^verbatim>\<open>(is_owned[0], owner[0])\<close>.\<close>

definition owner_update :: "bool \<times> int \<Rightarrow> int \<Rightarrow> bool \<times> int" where
  "owner_update st q = (if q \<ge> 0 \<and> q < snd st then (False, q) else st)"

text \<open>Lines 308--315: the local node number of the face node.\<close>

definition assign_lni :: "trimesh_meta_t \<Rightarrow> bool \<Rightarrow> int \<Rightarrow> abort + (int \<times> trimesh_meta_t)" where
  "assign_lni me is_owned owner =
    (if is_owned then
       (if owner \<noteq> mpirank me
          then Inl (Assertion ''owner[0] == me->mpirank'')
        else Inr (num_owned me, me\<lparr>num_owned := num_owned me + 1\<rparr>))
     else
       (if \<not> owner < mpirank me
          then Inl (Assertion ''owner[0] < me->mpirank'')
        else Inr (-1 - num_shared me, me\<lparr>num_shared := num_shared me + 1\<rparr>)))"

definition local_element :: "trimesh_meta_t \<Rightarrow> p4est_iter_face_side_t \<Rightarrow> abort + int" where
  \<comment> \<open>\<^verbatim>\<open>tree->quadrants_offset + fss[i]->is.full.quadid\<close>\<close>
  "local_element me fs =
    (case tree_quadrants_offset me (treeid fs) of
       Inl e \<Rightarrow> Inl e
     | Inr off \<Rightarrow>
       (case side_data fs of
          Full _ quadid \<Rightarrow> Inr (off + quadid)
        | Hanging _ _ \<Rightarrow> Inl (Assertion ''!fss[i]->is_hanging'')))"

text \<open>Lines 316--354: what the visit does for side \<open>i\<close> once \<open>lni\<close> is known.\<close>

definition face_side_assign ::
  "trimesh_meta_t \<Rightarrow> p4est_iter_face_side_t \<Rightarrow> int \<Rightarrow> int \<Rightarrow> bool \<Rightarrow> int \<Rightarrow> int
     \<Rightarrow> abort + trimesh_meta_t" where
  "face_side_assign me fs q gpos is_owned owner lni =
    (if q = mpirank me then
       (case local_element me fs of
          Inl e \<Rightarrow> Inl e
        | Inr le \<Rightarrow> set_lnodes_face_full me le (face fs) lni)
     else if q \<ge> 0 then
       (case peer_access me q of
          Inl e \<Rightarrow> Inl e
        | Inr (me1, pi) \<Rightarrow>
          if is_owned then
            (if \<not> mpirank me < q
               then Inl (Assertion ''me->mpirank < q'')
             else case peer_add_reply (peers me1 ! pi) lni of
               Inl e \<Rightarrow> Inl e
             | Inr peer' \<Rightarrow> Inr (me1\<lparr>peers := (peers me1)[pi := peer']\<rparr>))
          else if q = owner then
            (if \<not> q < mpirank me
               then Inl (Assertion ''q < me->mpirank'')
             else case peer_add_query (peers me1 ! pi) gpos lni of
               Inl e \<Rightarrow> Inl e
             | Inr peer' \<Rightarrow> Inr (me1\<lparr>peers := (peers me1)[pi := peer']\<rparr>))
          else
            (if \<not> (owner < mpirank me \<and> owner < q)
               then Inl (Assertion ''owner[0] < me->mpirank && owner[0] < q'')
             else Inr me1))
     else Inr me)"

text \<open>
  Lines 360--397, the hanging connection: every assignment there goes to a local
  variable of the callback; what remains are the reads that can abort.
\<close>

definition hanging_side_rank ::
  "trimesh_meta_t \<Rightarrow> p4est_iter_face_side_t \<Rightarrow> abort + unit" where
  "hanging_side_rank me fs =
    (case side_data fs of
       Hanging _ _ \<Rightarrow> Inr ()
     | Full is_ghost quadid \<Rightarrow>
       if \<not> is_ghost then Inr ()
       else if quadid \<ge> 0 then
         (case ghost me of
            None \<Rightarrow> Inl (Assertion ''me->ghost != NULL'')
          | Some _ \<Rightarrow>
            (case ghost_rank me of
               None \<Rightarrow> Inl (Bounds ''me->ghost_rank[fu->quadid]'')
             | Some gr \<Rightarrow>
               if \<not> in_bounds gr quadid
                 then Inl (Bounds ''me->ghost_rank[fu->quadid]'')
               else Inr ()))
       else Inr ())"

definition iter_face1 ::
  "p4est_iter_face_info_t \<Rightarrow> trimesh_meta_t \<Rightarrow> abort + trimesh_meta_t" where
  "iter_face1 fi me =
    (case sides fi of
       [fs] \<Rightarrow>
         if orientation fi \<noteq> 0
           then Inl (Assertion ''fi->orientation == 0'')
         else if tree_boundary fi \<noteq> P4EST_CONNECT_FACE
           then Inl (Assertion ''fi->tree_boundary == P4EST_CONNECT_FACE'')
         else (case side_data fs of
           Hanging _ _ \<Rightarrow> Inl (Assertion ''!fs->is_hanging'')
         | Full is_ghost quadid \<Rightarrow>
           if is_ghost
             then Inl (Assertion ''!fs->is.full.is_ghost'')
           else if with_faces me then
             (case local_element me fs of
                Inl e \<Rightarrow> Inl e
              | Inr le \<Rightarrow>
                  set_lnodes_face_full (me\<lparr>num_owned := num_owned me + 1\<rparr>)
                    le (face fs) (num_owned me))
           else Inr me)
     | [fs0, fs1] \<Rightarrow>
         if is_hanging fs0 \<and> is_hanging fs1
           then Inl (Assertion ''!fss[0]->is_hanging || !fss[1]->is_hanging'')
         else if \<not> is_hanging fs0 \<and> \<not> is_hanging fs1 then
           (if with_faces me then
              (case face_side_rank me fs0 of
                 Inl e \<Rightarrow> Inl e
               | Inr (q0, gpos0) \<Rightarrow>
                (case face_side_rank me fs1 of
                   Inl e \<Rightarrow> Inl e
                 | Inr (q1, gpos1) \<Rightarrow>
                   let (is_owned, owner) =
                         owner_update (owner_update (True, mpirank me) q0) q1 in
                   (case assign_lni me is_owned owner of
                      Inl e \<Rightarrow> Inl e
                    | Inr (lni, me1) \<Rightarrow>
                      (case face_side_assign me1 fs0 q0 gpos0 is_owned owner lni of
                         Inl e \<Rightarrow> Inl e
                       | Inr me2 \<Rightarrow>
                           face_side_assign me2 fs1 q1 gpos1 is_owned owner lni))))
            else Inr me)
         else
           (case hanging_side_rank me fs0 of
              Inl e \<Rightarrow> Inl e
            | Inr _ \<Rightarrow>
              (case hanging_side_rank me fs1 of
                 Inl e \<Rightarrow> Inl e
               | Inr _ \<Rightarrow> Inr me))
     | _ \<Rightarrow> Inl (Assertion ''fi->sides.elem_count == 2''))"

definition iter_corner1 :: "unit \<Rightarrow> trimesh_meta_t \<Rightarrow> trimesh_meta_t" where
  "iter_corner1 ci me = me"

text \<open>
  \<^verbatim>\<open>p4est_iterate\<close> is not part of the sources: the order in which it invokes the
  three callbacks is the list of visits it is given here.
\<close>

datatype visit =
    Volume p4est_iter_volume_info_t
  | Face p4est_iter_face_info_t
  | Corner

fun visit_callback :: "visit \<Rightarrow> trimesh_meta_t \<Rightarrow> abort + trimesh_meta_t" where
  "visit_callback (Volume vi) me = iter_volume1 vi me"
| "visit_callback (Face fi) me = iter_face1 fi me"
| "visit_callback Corner me = Inr (iter_corner1 () me)"

definition p4est_iterate :: "visit list \<Rightarrow> trimesh_meta_t \<Rightarrow> abort + trimesh_meta_t" where
  "p4est_iterate visits me = run_steps visit_callback visits me"

section \<open>Posting the queries and the receives for them\<close>

text \<open>
  The transport is outside the sources. Its model: every operation handed to MPI is
  appended to \<open>posted\<close> and stored in the peer's request slot; MPI calls themselves are
  taken to return success. A buffer that \<^verbatim>\<open>sc_array_resize\<close> has only allocated holds
  indeterminate data until the receive completes; the model fills it with \<open>0\<close>.
\<close>

definition post_peer :: "nat \<Rightarrow> trimesh_meta_t \<Rightarrow> abort + trimesh_meta_t" where
  "post_peer iz me =
    (if \<not> in_bounds (peers me) (int iz)
       then Inl (Bounds ''sc_array_index (&me->peers, iz)'')
     else if \<not> in_bounds (pereq me) (int iz)
       then Inl (Bounds ''sc_array_index (&me->pereq, iz)'')
     else let peer = peers me ! iz in
       if rank peer = mpirank me
         then Inl (Assertion ''peer->rank != me->mpirank'')
       else if rank peer > mpirank me then
         (if \<not> bufcount peer > 0
            then Inl (Assertion ''peer->bufcount > 0'')
          else if length (querypos peer) \<noteq> 0
            then Inl (Assertion ''peer->querypos.elem_count == 0'')
          else
            let req = Irecv (bufcount peer) (rank peer) P4EST_COMM_TNODES_QUERY;
                peer' = peer\<lparr>querypos := replicate (nat (bufcount peer)) 0, done_flag := 1\<rparr>
            in Inr (me\<lparr>peers := (peers me)[iz := peer'],
                        pereq := (pereq me)[iz := req],
                        posted := posted me @ [req]\<rparr>))
       else
         (if bufcount peer \<noteq> 0
            then Inl (Assertion ''peer->bufcount == 0'')
          else if \<not> length (querypos peer) > 0
            then Inl (Assertion ''peer->querypos.elem_count > 0'')
          else
            let req = Isend (querypos peer) (rank peer) P4EST_COMM_TNODES_QUERY;
                peer' = peer\<lparr>bufcount := int (length (querypos peer)), done_flag := 3\<rparr>
            in Inr (me\<lparr>peers := (peers me)[iz := peer'],
                        pereq := (pereq me)[iz := req],
                        posted := posted me @ [req]\<rparr>)))"

definition post_query_reply :: "trimesh_meta_t \<Rightarrow> abort + trimesh_meta_t" where
  "post_query_reply me =
    (let zp = length (peers me) in
     run_steps post_peer [0..<zp] (me\<lparr>pereq := replicate zp Request_null\<rparr>))"

section \<open>Draining the requests\<close>

definition pos_is_boundary :: "int list" where
  "pos_is_boundary = [0, 1, 1, 1, 1, 1, 1, 1, 1,
                      0, 0, 0, 0, 0, 0, 0, 0,
                      1, 1, 1, 1, 1, 1, 1, 1]"

text \<open>
  Line 492 reads \<^verbatim>\<open>ln->element_nodes[gpos]\<close> once line 490 has compared \<^verbatim>\<open>gpos\<close>
  with \<^verbatim>\<open>ln->vnodes * ln->owned_count\<close>, while the array has
  \<^verbatim>\<open>ln->vnodes * ln->num_local_elements\<close> entries. What a read past its end finds is
  not determined by the program: \<open>mem\<close> gives the value found at each position outside
  the array.
\<close>

definition read_element_nodes :: "(int \<Rightarrow> int) \<Rightarrow> p4est_lnodes_t \<Rightarrow> int \<Rightarrow> int" where
  "read_element_nodes mem ln gpos =
     (if in_bounds (element_nodes ln) gpos then element_nodes ln ! nat gpos else mem gpos)"

text \<open>Lines 485--494, one pass of the loop over the received query buffer.\<close>

definition resolve_query ::
  "(int \<Rightarrow> int) \<Rightarrow> p4est_lnodes_t \<Rightarrow> int \<Rightarrow> int list \<Rightarrow> abort + int list" where
  "resolve_query mem ln lni qp =
    (if \<not> in_bounds qp lni
       then Inl (Bounds ''sc_array_index (&peer->querypos, lni)'')
     else let gpos = qp ! nat lni in
       if \<not> (0 \<le> gpos \<and> gpos < wrap32 (vnodes ln * owned_count ln))
         then Inl (Assertion ''0 <= gpos && gpos < ln->vnodes * ln->owned_count'')
       else if \<not> in_bounds pos_is_boundary (gpos smod vnodes ln)
         then Inl (Bounds ''pos_is_boundary[gpos % ln->vnodes]'')
       else if pos_is_boundary ! nat (gpos smod vnodes ln) = 0
         then Inl (Assertion ''pos_is_boundary[gpos % ln->vnodes]'')
       else let oind = read_element_nodes mem ln gpos in
         if \<not> (0 \<le> oind \<and> oind < owned_count ln)
           then Inl (Assertion ''0 <= oind && oind < ln->owned_count'')
         else Inr (qp[nat lni := oind]))"

definition resolve_queries ::
  "(int \<Rightarrow> int) \<Rightarrow> p4est_lnodes_t \<Rightarrow> int \<Rightarrow> int list \<Rightarrow> abort + int list" where
  "resolve_queries mem ln lbc qp = run_steps (resolve_query mem ln) (map int [0..<nat lbc]) qp"

text \<open>
  What MPI has done by the time \<^verbatim>\<open>MPI_Waitsome\<close> reports request \<open>j\<close>: the request is
  null again, and a receive has stored the message \<open>dat\<close> at the start of the peer's
  buffer. A message longer than the posted count is an MPI error, which
  \<^verbatim>\<open>SC_CHECK_MPI\<close> turns into an abort. Reports that name no active request are not
  behaviours of MPI; the model ends them with an abort of their own.
\<close>

definition mpi_complete :: "int \<times> int list \<Rightarrow> trimesh_meta_t \<Rightarrow> abort + trimesh_meta_t" where
  "mpi_complete c me =
    (let j = fst c; dat = snd c in
     if \<not> in_bounds (pereq me) j \<or> \<not> in_bounds (peers me) j
       then Inl (Abort ''MPI_Waitsome: no such request'')
     else case pereq me ! nat j of
       Request_null \<Rightarrow> Inl (Abort ''MPI_Waitsome: inactive request'')
     | Isend _ _ _ \<Rightarrow> Inr (me\<lparr>pereq := (pereq me)[nat j := Request_null]\<rparr>)
     | Irecv count _ _ \<Rightarrow>
         if int (length dat) > count
           then Inl (Abort ''SC_CHECK_MPI'')
         else let peer = peers me ! nat j;
                  peer' = peer\<lparr>querypos := dat @ drop (length dat) (querypos peer)\<rparr>
           in Inr (me\<lparr>pereq := (pereq me)[nat j := Request_null],
                       peers := (peers me)[nat j := peer']\<rparr>))"

text \<open>Lines 471--526, the body of the loop over \<^verbatim>\<open>waitind\<close>; the state carries \<^verbatim>\<open>nwtotal\<close>.\<close>

definition wait_handle ::
  "(int \<Rightarrow> int) \<Rightarrow> int \<Rightarrow> trimesh_meta_t \<times> int \<Rightarrow> abort + (trimesh_meta_t \<times> int)" where
  "wait_handle mem j st =
    (let me = fst st; nwtotal = snd st in
     if \<not> in_bounds (peers me) j
       then Inl (Bounds ''sc_array_index (&me->peers, j)'')
     else let peer = peers me ! nat j in
       if rank peer = mpirank me
         then Inl (Assertion ''peer->rank != me->mpirank'')
       else if \<not> in_bounds (pereq me) j
         then Inl (Bounds ''sc_array_index (&me->pereq, j)'')
       else if pereq me ! nat j \<noteq> Request_null
         then Inl (Assertion ''*preq == sc_MPI_REQUEST_NULL'')
       else if rank peer > mpirank me then
         (if done_flag peer = 1 then
            (case resolve_queries mem (lnodes me) (bufcount peer) (querypos peer) of
               Inl e \<Rightarrow> Inl e
             | Inr qp \<Rightarrow>
                 let req = Isend (take (nat (bufcount peer)) qp) (rank peer)
                             P4EST_COMM_TNODES_REPLY;
                     peer' = peer\<lparr>querypos := qp, done_flag := 2\<rparr>
                 in Inr (me\<lparr>peers := (peers me)[nat j := peer'],
                             pereq := (pereq me)[nat j := req],
                             posted := posted me @ [req]\<rparr>, nwtotal))
          else if done_flag peer \<noteq> 2
            then Inl (Assertion ''peer->done == 2'')
          else Inr (me\<lparr>peers := (peers me)[nat j := peer\<lparr>done_flag := 0\<rparr>]\<rparr>, nwtotal - 1))
       else
         (if done_flag peer = 3 then
            (let req = Irecv (bufcount peer) (rank peer) P4EST_COMM_TNODES_REPLY;
                 peer' = peer\<lparr>done_flag := 4\<rparr>
             in Inr (me\<lparr>peers := (peers me)[nat j := peer'],
                         pereq := (pereq me)[nat j := req],
                         posted := posted me @ [req]\<rparr>, nwtotal))
          else if done_flag peer \<noteq> 4
            then Inl (Assertion ''peer->done == 4'')
          else Inr (me\<lparr>peers := (peers me)[nat j := peer\<lparr>done_flag := 0\<rparr>]\<rparr>, nwtotal - 1)))"

text \<open>
  One return of \<^verbatim>\<open>MPI_Waitsome\<close>: the completions it reports, each with the data a
  completed receive delivered. MPI finishes all of them before the call returns.
\<close>

definition wait_round ::
  "(int \<Rightarrow> int) \<Rightarrow> (int \<times> int list) list \<Rightarrow> trimesh_meta_t \<times> int
     \<Rightarrow> abort + (trimesh_meta_t \<times> int)" where
  "wait_round mem r st =
    (if \<not> length r > 0
       then Inl (Abort ''Invalid count after MPI_Waitsome'')
     else case run_steps mpi_complete r (fst st) of
       Inl e \<Rightarrow> Inl e
     | Inr me1 \<Rightarrow> run_steps (wait_handle mem) (map fst r) (me1, snd st))"

text \<open>
  The loop \<^verbatim>\<open>while (nwtotal > 0)\<close>. Each pass blocks in \<^verbatim>\<open>MPI_Waitsome\<close>; when the
  transport has nothing more to report the process never returns, which is \<open>None\<close>.
\<close>

fun wait_loop ::
  "(int \<Rightarrow> int) \<Rightarrow> (int \<times> int list) list list \<Rightarrow> trimesh_meta_t \<times> int
     \<Rightarrow> (abort + trimesh_meta_t) option" where
  "wait_loop mem [] st = (if snd st > 0 then None else Some (Inr (fst st)))"
| "wait_loop mem (r # rs) st =
     (if snd st > 0 then
        (case wait_round mem r st of
           Inl e \<Rightarrow> Some (Inl e)
         | Inr st' \<Rightarrow> wait_loop mem rs st')
      else Some (Inr (fst st)))"

definition wait_query_reply ::
  "(int \<Rightarrow> int) \<Rightarrow> (int \<times> int list) list list \<Rightarrow> trimesh_meta_t
     \<Rightarrow> (abort + trimesh_meta_t) option" where
  "wait_query_reply mem rounds me = wait_loop mem rounds (me, int (length (peers me)))"

section \<open>The constructor\<close>

text \<open>Lines 570--572: \<^verbatim>\<open>for (; lg < ng; ++lg) me->ghost_rank[lg] = q;\<close>\<close>

function fill_ghost_rank :: "int list \<Rightarrow> int \<Rightarrow> int \<Rightarrow> int \<Rightarrow> abort + (int list \<times> int)" where
  "fill_ghost_rank gr lg ng q =
    (if lg < ng then
       (if \<not> in_bounds gr lg
          then Inl (Bounds ''me->ghost_rank[lg]'')
        else fill_ghost_rank (gr[nat lg := q]) (lg + 1) ng q)
     else Inr (gr, lg))"
  by pat_completeness auto
termination
  by (relation "measure (\<lambda>(gr, lg, ng, q). nat (ng - lg))") auto

declare fill_ghost_rank.simps [simp del]

text \<open>Lines 568--573: the walk over the ranks \<open>q < s\<close>.\<close>

function ghost_rank_loop ::
  "int list \<Rightarrow> int \<Rightarrow> int \<Rightarrow> int list \<times> int \<Rightarrow> abort + (int list \<times> int)" where
  "ghost_rank_loop offsets s q st =
    (if q < s then
       (if \<not> in_bounds offsets (q + 1)
          then Inl (Bounds ''ghost->proc_offsets[q + 1]'')
        else case fill_ghost_rank (fst st) (snd st) (offsets ! nat (q + 1)) q of
          Inl e \<Rightarrow> Inl e
        | Inr st' \<Rightarrow> ghost_rank_loop offsets s (q + 1) st')
     else Inr st)"
  by pat_completeness auto
termination
  by (relation "measure (\<lambda>(offsets, s, q, st). nat (s - q))") auto

declare ghost_rank_loop.simps [simp del]

text \<open>
  Lines 562--574. \<^verbatim>\<open>P4EST_ALLOC\<close> leaves the table \<open>gr0\<close> with indeterminate entries;
  it is a parameter here.
\<close>

definition ghost_rank_new :: "p4est_ghost_t \<Rightarrow> int \<Rightarrow> int list \<Rightarrow> abort + int list" where
  "ghost_rank_new gh s gr0 =
    (if \<not> in_bounds (proc_offsets gh) 0
       then Inl (Bounds ''ghost->proc_offsets[0]'')
     else if proc_offsets gh ! 0 \<noteq> 0
       then Inl (Assertion ''ghost->proc_offsets[0] == 0'')
     else if \<not> in_bounds (proc_offsets gh) s
       then Inl (Bounds ''ghost->proc_offsets[s]'')
     else if proc_offsets gh ! nat s \<noteq> int (length (ghosts gh))
       then Inl (Assertion ''ghost->proc_offsets[s] == ghost->ghosts.elem_count'')
     else case ghost_rank_loop (proc_offsets gh) s 0 (gr0, 0) of
       Inl e \<Rightarrow> Inl e
     | Inr (gr, lg) \<Rightarrow>
         if lg \<noteq> int (length (ghosts gh))
           then Inl (Assertion ''lg == ghost->ghosts.elem_count'')
         else Inr gr)"

text \<open>
  Lines 552--594, up to the call of \<^verbatim>\<open>p4est_iterate\<close>. The assertion that the forest is
  balanced concerns a function outside the sources and is taken to hold. The product
  \<^verbatim>\<open>(size_t) le * (size_t) vn\<close> of a negative \<open>le\<close> exceeds \<^verbatim>\<open>P4EST_LOCIDX_MAX\<close>.
\<close>

definition trimesh_init ::
  "p4est_t \<Rightarrow> p4est_ghost_t option \<Rightarrow> bool \<Rightarrow> abort + trimesh_meta_t" where
  "trimesh_init p4 gho wfaces =
    (let s = p4est_mpisize p4;
         vn = 9 + (if wfaces then 16 else 0);
         le = local_num_quadrants p4;
         ln = \<lparr>vnodes = vn, num_local_elements = le,
               face_code = replicate (nat le) 0,
               element_nodes = replicate (nat (le * vn)) 0,
               owned_count = 0, global_owned_count = [], global_offset = 0,
               written = []\<rparr>;
         me = \<lparr>with_faces = wfaces, mpisize = s, mpirank = p4est_mpirank p4,
               ghost_rank = None, proc_peer = None, remotepos = [], peers = [],
               pereq = [], lenum = 0, num_owned = 0, num_shared = 0, goffset = None,
               p4est = p4, ghost = gho, lnodes = ln, posted = []\<rparr>
     in case (case gho of
                None \<Rightarrow> Inr me
              | Some gh \<Rightarrow>
                 (case ghost_rank_new gh s (replicate (length (ghosts gh)) 0) of
                    Inl e \<Rightarrow> Inl e
                  | Inr gr \<Rightarrow>
                      Inr (me\<lparr>ghost_rank := Some gr,
                               proc_peer := Some (replicate (nat s) 0)\<rparr>))) of
          Inl e \<Rightarrow> Inl e
        | Inr me1 \<Rightarrow>
            if \<not> (0 \<le> le \<and> le * vn \<le> P4EST_LOCIDX_MAX)
              then Inl (Assertion ''(size_t) le * (size_t) vn <= (size_t) P4EST_LOCIDX_MAX'')
            else Inr me1)"

text \<open>Lines 612--614: \<^verbatim>\<open>gc = me->goffset[q + 1] = gc + ln->global_owned_count[q]\<close>.\<close>

function goffset_loop ::
  "int list \<Rightarrow> int \<Rightarrow> int \<Rightarrow> int list \<Rightarrow> int \<Rightarrow> abort + (int list \<times> int)" where
  "goffset_loop counts s q go gc =
    (if q < s then
       (if \<not> in_bounds counts q
          then Inl (Bounds ''ln->global_owned_count[q]'')
        else if \<not> in_bounds go (q + 1)
          then Inl (Bounds ''me->goffset[q + 1]'')
        else goffset_loop counts s (q + 1)
               (go[nat (q + 1) := gc + counts ! nat q]) (gc + counts ! nat q))
     else Inr (go, gc))"
  by pat_completeness auto
termination
  by (relation "measure (\<lambda>(counts, s, q, go, gc). nat (s - q))") auto

declare goffset_loop.simps [simp del]

text \<open>
  Lines 610--614 on the gathered counts; \<open>go0\<close> is the freshly allocated table of
  \<open>s + 1\<close> entries. The result is the table and the final \<open>gc\<close>.
\<close>

definition goffset_new :: "int list \<Rightarrow> int \<Rightarrow> int list \<Rightarrow> abort + (int list \<times> int)" where
  "goffset_new counts s go0 =
    (if \<not> in_bounds go0 0
       then Inl (Bounds ''me->goffset[0]'')
     else goffset_loop counts s 0 (go0[0 := 0]) 0)"

text \<open>
  Lines 604--617. \<^verbatim>\<open>MPI_Allgather\<close> delivers one count per rank, this process's own
  count among them at its rank; \<open>gathered\<close> is what the ranks contribute.
\<close>

definition share_owned_count :: "int list \<Rightarrow> trimesh_meta_t \<Rightarrow> abort + trimesh_meta_t" where
  "share_owned_count gathered me =
    (let s = mpisize me; p = mpirank me;
         counts = gathered[nat p := num_owned me];
         ln1 = (lnodes me)\<lparr>owned_count := num_owned me, global_owned_count := counts\<rparr>
     in case goffset_new counts s (replicate (nat (s + 1)) 0) of
          Inl e \<Rightarrow> Inl e
        | Inr (go, gc) \<Rightarrow>
            if \<not> in_bounds go p
              then Inl (Bounds ''me->goffset[p]'')
            else Inr (me\<lparr>goffset := Some go,
                         lnodes := ln1\<lparr>global_offset := go ! nat p\<rparr>\<rparr>))"

text \<open>Lines 624--641: the scratch structures are released.\<close>

definition trimesh_free :: "trimesh_meta_t \<Rightarrow> abort + trimesh_meta_t" where
  "trimesh_free me =
    (let me1 = me\<lparr>goffset := None\<rparr> in
     case ghost me of
       None \<Rightarrow> Inr me1
     | Some _ \<Rightarrow>
         if \<exists>peer \<in> set (peers me). done_flag peer \<noteq> 0
           then Inl (Assertion ''!peer->done'')
         else Inr (me1\<lparr>remotepos := [], peers := [], pereq := [],
                       proc_peer := None, ghost_rank := None\<rparr>))"

text \<open>
  Lines 594--620: enumeration, posting, offsets, draining. The result is the context
  as it stands before the scratch structures are released.
\<close>

definition trimesh_phases ::
  "visit list \<Rightarrow> int list \<Rightarrow> (int \<Rightarrow> int) \<Rightarrow> (int \<times> int list) list list
     \<Rightarrow> trimesh_meta_t \<Rightarrow> (abort + trimesh_meta_t) option" where
  "trimesh_phases visits gathered mem rounds me0 =
    (case p4est_iterate visits me0 of
       Inl e \<Rightarrow> Some (Inl e)
     | Inr me1 \<Rightarrow>
         if lenum me1 \<noteq> num_local_elements (lnodes me1)
           then Some (Inl (Assertion ''me->lenum == le''))
         else (case post_query_reply me1 of
           Inl e \<Rightarrow> Some (Inl e)
         | Inr me2 \<Rightarrow>
            (case share_owned_count gathered me2 of
               Inl e \<Rightarrow> Some (Inl e)
             | Inr me3 \<Rightarrow> wait_query_reply mem rounds me3)))"

definition p4est_trimesh_new ::
  "p4est_t \<Rightarrow> p4est_ghost_t option \<Rightarrow> bool \<Rightarrow> visit list \<Rightarrow> int list
     \<Rightarrow> (int \<Rightarrow> int) \<Rightarrow> (int \<times> int list) list list
     \<Rightarrow> (abort + p4est_lnodes_t) option" where
  "p4est_trimesh_new p4 gho wfaces visits gathered mem rounds =
    (case trimesh_init p4 gho wfaces of
       Inl e \<Rightarrow> Some (Inl e)
     | Inr me0 \<Rightarrow>
        (case trimesh_phases visits gathered mem rounds me0 of
           None \<Rightarrow> None
         | Some (Inl e) \<Rightarrow> Some (Inl e)
         | Some (Inr me4) \<Rightarrow>
            (case trimesh_free me4 of
               Inl e \<Rightarrow> Some (Inl e)
             | Inr me5 \<Rightarrow> Some (Inr (lnodes me5)))))"

section \<open>The traversal driver\<close>

text \<open>
  \<^verbatim>\<open>p4est_iterate\<close> is not among the sources, and the order in which it visits
  elements, faces and corners is its own. Two conditions on a sequence of visits are
  named here; a property below that depends on one of them states it as a hypothesis.
  \<open>volume_first\<close>: the first visit that is not a corner visit is the visit of an element.
  \<open>local_faces\<close>: every visited face has a side that is a local element.
\<close>

fun volume_first :: "visit list \<Rightarrow> bool" where
  "volume_first [] = True"
| "volume_first (Volume vi # vs) = True"
| "volume_first (Face fi # vs) = False"
| "volume_first (Corner # vs) = volume_first vs"

definition side_is_local :: "p4est_iter_face_side_t \<Rightarrow> bool" where
  "side_is_local fs =
     (case side_data fs of
        Full is_ghost _ \<Rightarrow> \<not> is_ghost
      | Hanging is_ghosts _ \<Rightarrow> False \<in> set is_ghosts)"

fun local_faces :: "visit list \<Rightarrow> bool" where
  "local_faces [] = True"
| "local_faces (Face fi # vs) = ((\<exists>fs \<in> set (sides fi). side_is_local fs) \<and> local_faces vs)"
| "local_faces (v # vs) = local_faces vs"


section \<open>Invariants of the enumeration\<close>

text \<open>
  The positions stored to are pairwise distinct, and each either holds a value other
  than the sentinel \<open>0\<close> or is the interior slot of an element already visited.
\<close>

definition slots_once :: "int \<Rightarrow> p4est_lnodes_t \<Rightarrow> bool" where
  "slots_once n ln \<longleftrightarrow>
     distinct (written ln)
   \<and> (\<forall>p \<in> set (written ln). in_bounds (element_nodes ln) p
         \<and> (element_nodes ln ! nat p \<noteq> 0 \<or> (\<exists>k. 0 \<le> k \<and> k < n \<and> p = k * vnodes ln)))"

text \<open>Between two states, \<open>element_nodes\<close> differs only at positions added to \<open>written\<close>.\<close>

definition stores_logged :: "p4est_lnodes_t \<Rightarrow> p4est_lnodes_t \<Rightarrow> bool" where
  "stores_logged ln ln' \<longleftrightarrow>
     length (element_nodes ln') = length (element_nodes ln)
   \<and> (\<exists>ws. written ln' = written ln @ ws
         \<and> (\<forall>i < length (element_nodes ln).
               int i \<notin> set ws \<longrightarrow> element_nodes ln' ! i = element_nodes ln ! i))"

text \<open>The context of a call without ghost layer, and slots that hold owned indices only.\<close>

definition no_ghost_state :: "trimesh_meta_t \<Rightarrow> bool" where
  "no_ghost_state me \<longleftrightarrow>
     ghost me = None \<and> ghost_rank me = None \<and> proc_peer me = None \<and> peers me = []
   \<and> remotepos me = [] \<and> posted me = [] \<and> num_shared me = 0"

definition owned_slots :: "int \<Rightarrow> p4est_lnodes_t \<Rightarrow> bool" where
  "owned_slots n ln \<longleftrightarrow>
     0 \<le> n \<and> (\<forall>x \<in> set (element_nodes ln). 0 \<le> x)
   \<and> (\<forall>p \<in> set (written ln). in_bounds (element_nodes ln) p
         \<and> element_nodes ln ! nat p < n)"

section \<open>The query and reply protocol\<close>

text \<open>
  The assertions of lines 490--493 on one received position: it lies in the range that
  line 490 computes, it is the position of a boundary slot, and the value read there lies
  in \<open>[0, owned_count)\<close>. With \<^verbatim>\<open>ln->vnodes\<close> at \<open>9\<close> or \<open>25\<close>, as the constructor
  sets it, the remainder of a position that is not negative is an index of the table
  \<^verbatim>\<open>pos_is_boundary\<close>.
\<close>

definition query_ok :: "(int \<Rightarrow> int) \<Rightarrow> p4est_lnodes_t \<Rightarrow> int \<Rightarrow> bool" where
  "query_ok mem ln gpos \<longleftrightarrow>
     0 \<le> gpos \<and> gpos < wrap32 (vnodes ln * owned_count ln)
   \<and> pos_is_boundary ! nat (gpos smod vnodes ln) \<noteq> 0
   \<and> 0 \<le> read_element_nodes mem ln gpos
   \<and> read_element_nodes mem ln gpos < owned_count ln"



section \<open>Example inputs\<close>

text \<open>Concrete inputs on which the theorems below are instantiated.\<close>

definition ghost_example :: p4est_ghost_t where
  "ghost_example = \<lparr>ghosts = [\<lparr>which_tree = 0, local_num = 3\<rparr>, \<lparr>which_tree = 0, local_num = 4\<rparr>,
       \<lparr>which_tree = 0, local_num = 0\<rparr>], proc_offsets = [0, 2, 2, 3]\<rparr>"

definition meta_example :: trimesh_meta_t where
  "meta_example =
     \<lparr>with_faces = True, mpisize = 3, mpirank = 1, ghost_rank = None, proc_peer = None,
      remotepos = [], peers = [], pereq = [], lenum = 1, num_owned = 3, num_shared = 0,
      goffset = None,
      p4est = \<lparr>p4est_mpisize = 3, p4est_mpirank = 1, local_num_quadrants = 1,
                quadrants_offset = [0]\<rparr>,
      ghost = None,
      lnodes = \<lparr>vnodes = 25, num_local_elements = 1, face_code = [0],
                 element_nodes = [0, 0, 0, 0, 0, 0, 0, 0, 0, 0, 0, 0, 0, 0, 0, 0, 0,
                                  1, 0, 2, 0, 0, 0, 0, 0],
                 owned_count = 0, global_owned_count = [], global_offset = 0,
                 written = [0, 17, 19]\<rparr>,
      posted = []\<rparr>"

definition reply_peer_example :: trimesh_peer_t where
  "reply_peer_example = \<lparr>rank = 2, done_flag = 0, lastadd = 4, bufcount = 1,
                          localind = [], querypos = []\<rparr>"

definition query_peer_example :: trimesh_peer_t where
  "query_peer_example = \<lparr>rank = 0, done_flag = 0, lastadd = -1, bufcount = 0,
                          localind = [-1], querypos = [42]\<rparr>"

definition meta_ghost_example :: trimesh_meta_t where
  "meta_ghost_example =
     \<lparr>with_faces = True, mpisize = 3, mpirank = 1, ghost_rank = Some [0, 2],
      proc_peer = Some [0, 0, 0],
      remotepos = [], peers = [], pereq = [], lenum = 1, num_owned = 1, num_shared = 0,
      goffset = None,
      p4est = \<lparr>p4est_mpisize = 3, p4est_mpirank = 1, local_num_quadrants = 1,
                quadrants_offset = [0]\<rparr>,
      ghost = Some \<lparr>ghosts = [\<lparr>which_tree = 0, local_num = 3\<rparr>,
                              \<lparr>which_tree = 0, local_num = 0\<rparr>],
                    proc_offsets = [0, 1, 1, 2]\<rparr>,
      lnodes = \<lparr>vnodes = 25, num_local_elements = 1, face_code = [0],
                 element_nodes = replicate 25 0,
                 owned_count = 0, global_owned_count = [], global_offset = 0,
                 written = [0]\<rparr>,
      posted = []\<rparr>"

definition lower_ghost_side :: p4est_iter_face_side_t where
  "lower_ghost_side = \<lparr>treeid = 0, face = 0, side_data = Full True 0\<rparr>"

definition higher_ghost_side :: p4est_iter_face_side_t where
  "higher_ghost_side = \<lparr>treeid = 0, face = 2, side_data = Full True 1\<rparr>"

definition local_side :: p4est_iter_face_side_t where
  "local_side = \<lparr>treeid = 0, face = 1, side_data = Full False 0\<rparr>"

definition hanging_side :: p4est_iter_face_side_t where
  "hanging_side = \<lparr>treeid = 0, face = 0, side_data = Hanging [True, True] [0, 1]\<rparr>"

definition face_to_lower :: p4est_iter_face_info_t where
  "face_to_lower = \<lparr>sides = [lower_ghost_side, local_side], orientation = 0, tree_boundary = 0\<rparr>"

definition face_hanging :: p4est_iter_face_info_t where
  "face_hanging = \<lparr>sides = [hanging_side, local_side], orientation = 0, tree_boundary = 0\<rparr>"

definition p4est_example :: p4est_t where
  "p4est_example = \<lparr>p4est_mpisize = 3, p4est_mpirank = 1, local_num_quadrants = 1,
                     quadrants_offset = [0]\<rparr>"

definition ghost_layer_example :: p4est_ghost_t where
  "ghost_layer_example = \<lparr>ghosts = [\<lparr>which_tree = 0, local_num = 3\<rparr>,
                                      \<lparr>which_tree = 0, local_num = 0\<rparr>],
                           proc_offsets = [0, 1, 1, 2]\<rparr>"

definition meta_start_example :: trimesh_meta_t where
  "meta_start_example =
     \<lparr>with_faces = True, mpisize = 3, mpirank = 1, ghost_rank = Some [0, 2],
      proc_peer = Some [0, 0, 0],
      remotepos = [], peers = [], pereq = [], lenum = 0, num_owned = 0, num_shared = 0,
      goffset = None, p4est = p4est_example, ghost = Some ghost_layer_example,
      lnodes = \<lparr>vnodes = 25, num_local_elements = 1, face_code = [0],
                 element_nodes = replicate 25 0,
                 owned_count = 0, global_owned_count = [], global_offset = 0,
                 written = []\<rparr>,
      posted = []\<rparr>"






definition p4est_single :: p4est_t where
  "p4est_single = \<lparr>p4est_mpisize = 2, p4est_mpirank = 0, local_num_quadrants = 1,
                    quadrants_offset = [0]\<rparr>"

definition visits_single :: "visit list" where
  "visits_single =
     [Volume \<lparr>vi_treeid = 0, vi_quadid = 0\<rparr>,
      Face \<lparr>sides = [\<lparr>treeid = 0, face = 0, side_data = Full False 0\<rparr>],
            orientation = 0, tree_boundary = 21\<rparr>,
      Face \<lparr>sides = [\<lparr>treeid = 0, face = 1, side_data = Full False 0\<rparr>,
                     \<lparr>treeid = 0, face = 0, side_data = Full True (-1)\<rparr>],
            orientation = 0, tree_boundary = 0\<rparr>,
      Corner]"

definition meta_single_start :: trimesh_meta_t where
  "meta_single_start =
     \<lparr>with_faces = True, mpisize = 2, mpirank = 0, ghost_rank = None, proc_peer = None,
      remotepos = [], peers = [], pereq = [], lenum = 0, num_owned = 0, num_shared = 0,
      goffset = None, p4est = p4est_single, ghost = None,
      lnodes = \<lparr>vnodes = 25, num_local_elements = 1, face_code = [0],
                 element_nodes = replicate 25 0,
                 owned_count = 0, global_owned_count = [], global_offset = 0,
                 written = []\<rparr>,
      posted = []\<rparr>"

definition lnodes_single_enumerated :: p4est_lnodes_t where
  "lnodes_single_enumerated =
     \<lparr>vnodes = 25, num_local_elements = 1, face_code = [0],
      element_nodes = [0, 0, 0, 0, 0, 0, 0, 0, 0, 0, 0, 0, 0, 0, 0, 0, 0,
                       1, 0, 2, 0, 0, 0, 0, 0],
      owned_count = 0, global_owned_count = [], global_offset = 0,
      written = [0, 17, 19]\<rparr>"

definition meta_single_enumerated :: trimesh_meta_t where
  "meta_single_enumerated =
     meta_single_start\<lparr>lenum := 1, num_owned := 3, lnodes := lnodes_single_enumerated\<rparr>"



text \<open>
  Rank 0 of the same three processes, with four elements. Its element 3 meets the element
  of rank 1 on face 0, the face whose node rank 1 asks for at position \<open>92\<close>.
\<close>

definition p4est_owner_example :: p4est_t where
  "p4est_owner_example = \<lparr>p4est_mpisize = 3, p4est_mpirank = 0, local_num_quadrants = 4,
                           quadrants_offset = [0]\<rparr>"

definition ghost_owner_example :: p4est_ghost_t where
  "ghost_owner_example = \<lparr>ghosts = [\<lparr>which_tree = 0, local_num = 0\<rparr>],
                           proc_offsets = [0, 0, 1, 1]\<rparr>"



definition owner_start_example :: trimesh_meta_t where
  "owner_start_example =
     \<lparr>with_faces = True, mpisize = 3, mpirank = 0, ghost_rank = Some [1],
      proc_peer = Some [0, 0, 0], remotepos = [], peers = [], pereq = [],
      lenum = 0, num_owned = 0, num_shared = 0, goffset = None,
      p4est = p4est_owner_example, ghost = Some ghost_owner_example,
      lnodes = \<lparr>vnodes = 25, num_local_elements = 4, face_code = [0, 0, 0, 0],
                 element_nodes = replicate 100 0,
                 owned_count = 0, global_owned_count = [], global_offset = 0,
                 written = []\<rparr>,
      posted = []\<rparr>"











section \<open>Properties\<close>

subsection \<open>Ghost-rank lookup\<close>

lemma fill_ghost_rank_result:
  assumes "0 \<le> lg" "lg \<le> ng" "ng \<le> int (length gr)"
  shows "\<exists>gr'. fill_ghost_rank gr lg ng q = Inr (gr', ng) \<and> length gr' = length gr
           \<and> (\<forall>g < length gr. gr' ! g = (if lg \<le> int g \<and> int g < ng then q else gr ! g))"
  using assms
proof (induction gr lg ng q rule: fill_ghost_rank.induct)
  case (1 gr lg ng q)
  show ?case
  proof (cases "lg < ng")
    case False
    with "1.prems" have "lg = ng" by simp
    then show ?thesis by (simp add: fill_ghost_rank.simps [of gr])
  next
    case True
    with "1.prems" have inb: "in_bounds gr lg" by (simp add: in_bounds_def)
    from True "1.prems" have
      "\<exists>gr'. fill_ghost_rank (gr[nat lg := q]) (lg + 1) ng q = Inr (gr', ng)
          \<and> length gr' = length (gr[nat lg := q])
          \<and> (\<forall>g < length (gr[nat lg := q]).
                gr' ! g = (if lg + 1 \<le> int g \<and> int g < ng then q else gr[nat lg := q] ! g))"
      using "1.IH" [OF True] inb by simp
    then obtain gr' where
      r: "fill_ghost_rank (gr[nat lg := q]) (lg + 1) ng q = Inr (gr', ng)"
      and l: "length gr' = length gr"
      and v: "\<forall>g < length gr.
                gr' ! g = (if lg + 1 \<le> int g \<and> int g < ng then q else gr[nat lg := q] ! g)"
      by auto
    have "fill_ghost_rank gr lg ng q = Inr (gr', ng)"
      using True inb r by (simp add: fill_ghost_rank.simps [of gr])
    moreover have "\<forall>g < length gr. gr' ! g = (if lg \<le> int g \<and> int g < ng then q else gr ! g)"
    proof (intro allI impI)
      fix g assume g: "g < length gr"
      show "gr' ! g = (if lg \<le> int g \<and> int g < ng then q else gr ! g)"
      proof (cases "int g = lg")
        case True
        then have "nat lg = g" by simp
        with v g True \<open>lg < ng\<close> show ?thesis by simp
      next
        case False
        then have "nat lg \<noteq> g" using "1.prems"(1) by auto
        with v g False show ?thesis by auto
      qed
    qed
    ultimately show ?thesis using l by blast
  qed
qed

lemma offsets_mono:
  assumes "\<forall>i < n. (offs :: int list) ! i \<le> offs ! Suc i" "i \<le> j" "j \<le> n"
  shows "offs ! i \<le> offs ! j"
  using assms(2,3)
proof (induction j)
  case 0 then show ?case by simp
next
  case (Suc j)
  show ?case
  proof (cases "i = Suc j")
    case True then show ?thesis by simp
  next
    case False
    with Suc.prems have "i \<le> j" "j < n" by auto
    with Suc.IH assms(1) show ?thesis by fastforce
  qed
qed

lemma ghost_rank_loop_result:
  assumes "0 \<le> q" "q \<le> s" "length offs = nat s + 1"
    and mono: "\<forall>i < nat s. offs ! i \<le> offs ! Suc i"
    and "offs ! nat s = int (length gr)" "0 \<le> offs ! nat q"
    and "lg = offs ! nat q"
    and "\<forall>g < nat lg. 0 \<le> gr ! g \<and> gr ! g < q \<and> offs ! nat (gr ! g) \<le> int g \<and> int g < offs ! Suc (nat (gr ! g))"
  shows "\<exists>gr'. ghost_rank_loop offs s q (gr, lg) = Inr (gr', int (length gr)) \<and> length gr' = length gr
           \<and> (\<forall>g < length gr. 0 \<le> gr' ! g \<and> gr' ! g < s \<and> offs ! nat (gr' ! g) \<le> int g \<and> int g < offs ! Suc (nat (gr' ! g)))"
  using assms
proof (induction offs s q "(gr, lg)" arbitrary: gr lg rule: ghost_rank_loop.induct)
  case (1 offs s q gr lg)
  show ?case
  proof (cases "q < s")
    case False
    with "1.prems" have qs: "q = s" by simp
    then have "lg = int (length gr)" using "1.prems" by simp
    then show ?thesis using "1.prems"(8) qs
      by (subst ghost_rank_loop.simps) simp
  next
    case True
    let ?ng = "offs ! nat (q + 1)"
    have nq: "nat (q + 1) = Suc (nat q)" using "1.prems"(1) by (simp add: nat_add_distrib)
    have inb: "in_bounds offs (q + 1)" using True "1.prems" by (simp add: in_bounds_def)
    have le1: "lg \<le> ?ng" using "1.prems" True nq by simp
    have "?ng \<le> offs ! nat s"
      using offsets_mono [OF "1.prems"(4), of "nat (q + 1)" "nat s"] True "1.prems"(1) by simp
    then have le2: "?ng \<le> int (length gr)" using "1.prems" by simp
    have lg0: "0 \<le> lg" using "1.prems" by simp
    obtain gr1 where
      f: "fill_ghost_rank gr lg ?ng q = Inr (gr1, ?ng)" and l1: "length gr1 = length gr"
      and v1: "\<forall>g < length gr. gr1 ! g = (if lg \<le> int g \<and> int g < ?ng then q else gr ! g)"
      using fill_ghost_rank_result [OF lg0 le1 le2, of q] by blast
    have inv: "\<forall>g < nat ?ng. 0 \<le> gr1 ! g \<and> gr1 ! g < q + 1 \<and> offs ! nat (gr1 ! g) \<le> int g
                 \<and> int g < offs ! Suc (nat (gr1 ! g))"
    proof (intro allI impI)
      fix g assume g: "g < nat ?ng"
      then have gl: "g < length gr" using le2 by simp
      show "0 \<le> gr1 ! g \<and> gr1 ! g < q + 1 \<and> offs ! nat (gr1 ! g) \<le> int g
                 \<and> int g < offs ! Suc (nat (gr1 ! g))"
      proof (cases "lg \<le> int g")
        case True
        from g have "int g < ?ng" by linarith
        with True have "gr1 ! g = q" using v1 gl by simp
        then show ?thesis using True \<open>int g < ?ng\<close> "1.prems"(1,7) nq by simp
      next
        case False
        then have "gr1 ! g = gr ! g" "g < nat lg" using v1 gl by auto
        then show ?thesis using "1.prems"(8) by fastforce
      qed
    qed
    have "\<exists>gr'. ghost_rank_loop offs s (q + 1) (gr1, ?ng) = Inr (gr', int (length gr1)) \<and> length gr' = length gr1
           \<and> (\<forall>g < length gr1. 0 \<le> gr' ! g \<and> gr' ! g < s \<and> offs ! nat (gr' ! g) \<le> int g \<and> int g < offs ! Suc (nat (gr' ! g)))"
    proof (rule "1.hyps" [OF True])
      show "\<not> \<not> in_bounds offs (q + 1)" using inb by simp
      show "fill_ghost_rank (fst (gr, lg)) (snd (gr, lg)) ?ng q = Inr (gr1, ?ng)"
        using f by simp
      show "0 \<le> q + 1" using "1.prems" by simp
      show "q + 1 \<le> s" using True by simp
      show "length offs = nat s + 1" by fact
      show "\<forall>i<nat s. offs ! i \<le> offs ! Suc i" by fact
      show "offs ! nat s = int (length gr1)" using "1.prems" l1 by simp
      show "0 \<le> offs ! nat (q + 1)" using le1 lg0 by simp
      show "?ng = offs ! nat (q + 1)" by simp
      show "\<forall>g<nat ?ng. 0 \<le> gr1 ! g \<and> gr1 ! g < q + 1 \<and> offs ! nat (gr1 ! g) \<le> int g \<and> int g < offs ! Suc (nat (gr1 ! g))"
        by (rule inv)
    qed
    then show ?thesis using True inb f l1
      by (subst ghost_rank_loop.simps) simp
  qed
qed

lemma all_less_3: "(\<forall>i < (3::nat). P i) = (P 0 \<and> P 1 \<and> P 2)"
proof -
  have "i < 3 \<longleftrightarrow> i = 0 \<or> i = 1 \<or> i = 2" for i :: nat by auto
  then show ?thesis by auto
qed

text \<open>
  Claim C6. For a ghost layer whose per-rank offsets start at \<open>0\<close>, end at the number of
  ghosts and never decrease, the walk of lines 562--574 returns a table (it does not
  abort), and for every ghost index \<open>g\<close> and rank \<open>q\<close> the entry \<open>ghost_rank[g]\<close> is
  \<open>q\<close> exactly when \<open>offsets[q] \<le> g < offsets[q + 1]\<close>, whatever the freshly
  allocated table held before.
\<close>

theorem ghost_rank_table:
  assumes s: "0 \<le> s"
    and len: "length (proc_offsets gh) = nat s + 1"
    and first: "proc_offsets gh ! 0 = 0"
    and last: "proc_offsets gh ! nat s = int (length (ghosts gh))"
    and mono: "\<forall>i < nat s. proc_offsets gh ! i \<le> proc_offsets gh ! Suc i"
    and gr0: "length gr0 = length (ghosts gh)"
  shows "\<exists>gr. ghost_rank_new gh s gr0 = Inr gr \<and> length gr = length (ghosts gh)
           \<and> (\<forall>g < length (ghosts gh). \<forall>q < nat s.
                 (gr ! g = int q) =
                 (proc_offsets gh ! q \<le> int g \<and> int g < proc_offsets gh ! Suc q))"
proof -
  let ?offs = "proc_offsets gh"
  have "\<exists>gr'. ghost_rank_loop ?offs s 0 (gr0, 0) = Inr (gr', int (length gr0)) \<and> length gr' = length gr0
           \<and> (\<forall>g < length gr0. 0 \<le> gr' ! g \<and> gr' ! g < s \<and> ?offs ! nat (gr' ! g) \<le> int g
                  \<and> int g < ?offs ! Suc (nat (gr' ! g)))"
    by (rule ghost_rank_loop_result) (use assms in simp_all)
  then obtain gr where
    run: "ghost_rank_loop ?offs s 0 (gr0, 0) = Inr (gr, int (length gr0))"
    and l: "length gr = length gr0"
    and v: "\<forall>g < length gr0. 0 \<le> gr ! g \<and> gr ! g < s \<and> ?offs ! nat (gr ! g) \<le> int g
                  \<and> int g < ?offs ! Suc (nat (gr ! g))"
    by blast
  have new: "ghost_rank_new gh s gr0 = Inr gr"
    using run s len first last gr0 by (simp add: ghost_rank_new_def in_bounds_def)
  have iff: "(gr ! g = int q) = (?offs ! q \<le> int g \<and> int g < ?offs ! Suc q)"
    if g: "g < length (ghosts gh)" and q: "q < nat s" for g q
  proof
    assume "gr ! g = int q"
    with v g gr0 show "?offs ! q \<le> int g \<and> int g < ?offs ! Suc q" by fastforce
  next
    assume range: "?offs ! q \<le> int g \<and> int g < ?offs ! Suc q"
    let ?r = "nat (gr ! g)"
    from v g gr0 have r: "0 \<le> gr ! g" "gr ! g < s" "?offs ! ?r \<le> int g" "int g < ?offs ! Suc ?r"
      by auto
    have "\<not> q < ?r"
    proof
      assume "q < ?r"
      then have "?offs ! Suc q \<le> ?offs ! ?r"
        using offsets_mono [OF mono, of "Suc q" ?r] r(2) by simp
      with range r(3) show False by simp
    qed
    moreover have "\<not> ?r < q"
    proof
      assume "?r < q"
      then have "?offs ! Suc ?r \<le> ?offs ! q"
        using offsets_mono [OF mono, of "Suc ?r" q] q by simp
      with range r(4) show False by simp
    qed
    ultimately have "?r = q" by simp
    with r(1) show "gr ! g = int q" by simp
  qed
  show ?thesis using new l gr0 iff by auto
qed

theorem ghost_rank_table_witness:
  "ghost_rank_new ghost_example 3 [7, 7, 7] = Inr [0, 0, 2]"
proof -
  have "\<exists>gr. ghost_rank_new ghost_example 3 [7, 7, 7] = Inr gr \<and> length gr = length (ghosts ghost_example)
           \<and> (\<forall>g < length (ghosts ghost_example). \<forall>q < nat 3.
                 (gr ! g = int q) =
                 (proc_offsets ghost_example ! q \<le> int g \<and> int g < proc_offsets ghost_example ! Suc q))"
    by (rule ghost_rank_table) (simp_all add: ghost_example_def all_less_3)
  then obtain gr where new: "ghost_rank_new ghost_example 3 [7, 7, 7] = Inr gr"
    and l: "length gr = 3"
    and v: "\<forall>g < 3. \<forall>q < 3. (gr ! g = int q) =
                 (proc_offsets ghost_example ! q \<le> int g \<and> int g < proc_offsets ghost_example ! Suc q)"
    by (auto simp: ghost_example_def)
  from v have "gr ! 0 = 0" "gr ! 1 = 0" "gr ! 2 = 2"
    using v [rule_format, of 0 0] v [rule_format, of 1 0] v [rule_format, of 2 2]
    by (simp_all add: ghost_example_def)
  with l have "gr = [0, 0, 2]"
    by (cases gr; cases "tl gr"; cases "tl (tl gr)"; cases "tl (tl (tl gr))") auto
  with new show ?thesis by simp
qed

subsection \<open>Global offsets\<close>

lemma goffset_loop_result:
  assumes "0 \<le> q" "q \<le> s" "length counts = nat s" "length go = nat s + 1"
    and "\<forall>r \<le> nat q. go ! r = sum_list (take r counts)"
    and "gc = sum_list (take (nat q) counts)"
  shows "\<exists>go'. goffset_loop counts s q go gc = Inr (go', sum_list counts)
           \<and> length go' = nat s + 1
           \<and> (\<forall>r \<le> nat s. go' ! r = sum_list (take r counts))"
  using assms
proof (induction counts s q go gc rule: goffset_loop.induct)
  case (1 counts s q go gc)
  show ?case
  proof (cases "q < s")
    case False
    with "1.prems" have "q = s" by simp
    with "1.prems" show ?thesis
      by (subst goffset_loop.simps) simp
  next
    case True
    have nq: "nat (q + 1) = Suc (nat q)" using "1.prems"(1) by (simp add: nat_add_distrib)
    have qlen: "nat q < length counts" using True "1.prems" by simp
    have inb1: "in_bounds counts q" using True "1.prems" by (simp add: in_bounds_def)
    have inb2: "in_bounds go (q + 1)" using True "1.prems" by (simp add: in_bounds_def)
    let ?gc = "gc + counts ! nat q"
    let ?go = "go[nat (q + 1) := ?gc]"
    have gc': "?gc = sum_list (take (nat (q + 1)) counts)"
      using "1.prems"(6) qlen nq by (simp add: take_Suc_conv_app_nth)
    have inv: "\<forall>r \<le> nat (q + 1). ?go ! r = sum_list (take r counts)"
    proof (intro allI impI)
      fix r assume r: "r \<le> nat (q + 1)"
      show "?go ! r = sum_list (take r counts)"
      proof (cases "r = nat (q + 1)")
        case True
        then show ?thesis using gc' inb2 "1.prems"(1) by (simp add: in_bounds_def)
      next
        case False
        with r nq have "r \<le> nat q" by simp
        with False "1.prems"(5) show ?thesis by simp
      qed
    qed
    have "\<exists>go'. goffset_loop counts s (q + 1) ?go ?gc = Inr (go', sum_list counts)
           \<and> length go' = nat s + 1
           \<and> (\<forall>r \<le> nat s. go' ! r = sum_list (take r counts))"
    proof (rule "1.IH" [OF True])
      show "\<not> \<not> in_bounds counts q" using inb1 by simp
      show "\<not> \<not> in_bounds go (q + 1)" using inb2 by simp
      show "0 \<le> q + 1" using "1.prems" by simp
      show "q + 1 \<le> s" using True by simp
      show "length counts = nat s" by fact
      show "length ?go = nat s + 1" using "1.prems" by simp
      show "\<forall>r \<le> nat (q + 1). ?go ! r = sum_list (take r counts)" by (rule inv)
      show "?gc = sum_list (take (nat (q + 1)) counts)" by (rule gc')
    qed
    then show ?thesis using True inb1 inb2
      by (subst goffset_loop.simps) (simp add: Let_def)
  qed
qed

lemma sum_list_take_mono:
  assumes "\<forall>c \<in> set (cs :: int list). 0 \<le> c" "i \<le> j"
  shows "sum_list (take i cs) \<le> sum_list (take j cs)"
proof -
  have "take j cs = take i cs @ drop i (take j cs)"
    using assms(2) by (metis append_take_drop_id min.absorb1 take_take)
  then have "sum_list (take j cs) = sum_list (take i cs) + sum_list (drop i (take j cs))"
    by (metis sum_list_append)
  moreover have "0 \<le> sum_list (drop i (take j cs))"
    using assms(1) by (intro sum_list_nonneg) (auto dest!: in_set_dropD in_set_takeD)
  ultimately show ?thesis by simp
qed

text \<open>
  Claim C5. After the all-gather of the owned counts (this rank's own count at its own
  rank) the offset table is the exclusive prefix sum over rank order: \<open>goffset[0] = 0\<close>,
  \<open>goffset[r + 1] = goffset[r] + owned_count[r]\<close> for every rank \<open>r\<close>; it never decreases
  when no count is negative; the base global offset of this process is
  \<open>goffset[own rank]\<close>; and \<open>goffset[size]\<close>, which is also the final \<open>gc\<close>, is the sum of
  all owned counts.
\<close>

theorem offset_table_prefix_sum:
  assumes p0: "0 \<le> mpirank me" and ps: "mpirank me < mpisize me"
    and len: "length gathered = nat (mpisize me)"
  shows "\<exists>me' go counts.
           share_owned_count gathered me = Inr me'
         \<and> goffset me' = Some go
         \<and> counts = gathered[nat (mpirank me) := num_owned me]
         \<and> global_owned_count (lnodes me') = counts
         \<and> owned_count (lnodes me') = num_owned me
         \<and> goffset_new counts (mpisize me) (replicate (nat (mpisize me + 1)) 0)
               = Inr (go, sum_list counts)
         \<and> length go = nat (mpisize me) + 1
         \<and> go ! 0 = 0
         \<and> (\<forall>r < nat (mpisize me). go ! Suc r = go ! r + counts ! r)
         \<and> ((\<forall>c \<in> set counts. 0 \<le> c) \<longrightarrow>
              (\<forall>i j. i \<le> j \<and> j \<le> nat (mpisize me) \<longrightarrow> go ! i \<le> go ! j))
         \<and> global_offset (lnodes me') = go ! nat (mpirank me)
         \<and> go ! nat (mpisize me) = sum_list counts"
proof -
  let ?s = "mpisize me" and ?p = "mpirank me"
  let ?counts = "gathered[nat ?p := num_owned me]"
  let ?go0 = "(replicate (nat (?s + 1)) (0::int))[0 := 0]"
  have s0: "0 \<le> ?s" using p0 ps by simp
  have lc: "length ?counts = nat ?s" using len by simp
  have "\<exists>go'. goffset_loop ?counts ?s 0 ?go0 0 = Inr (go', sum_list ?counts)
           \<and> length go' = nat ?s + 1
           \<and> (\<forall>r \<le> nat ?s. go' ! r = sum_list (take r ?counts))"
    by (rule goffset_loop_result) (use s0 lc in \<open>simp_all add: nat_add_distrib\<close>)
  then obtain go where
    loop: "goffset_loop ?counts ?s 0 ?go0 0 = Inr (go, sum_list ?counts)"
    and lgo: "length go = nat ?s + 1"
    and pre: "\<forall>r \<le> nat ?s. go ! r = sum_list (take r ?counts)"
    by blast
  have new: "goffset_new ?counts ?s (replicate (nat (?s + 1)) 0) = Inr (go, sum_list ?counts)"
    using loop s0 by (simp add: goffset_new_def in_bounds_def)
  have inb: "in_bounds go ?p" using lgo p0 ps by (simp add: in_bounds_def)
  define me' where "me' = me\<lparr>goffset := Some go,
      lnodes := (lnodes me)\<lparr>owned_count := num_owned me, global_owned_count := ?counts,
                             global_offset := go ! nat ?p\<rparr>\<rparr>"
  have run: "share_owned_count gathered me = Inr me'"
    using new inb by (simp add: share_owned_count_def Let_def me'_def)
  have step: "go ! Suc r = go ! r + ?counts ! r" if "r < nat ?s" for r
  proof -
    from that lc have "take (Suc r) ?counts = take r ?counts @ [?counts ! r]"
      by (simp add: take_Suc_conv_app_nth)
    with pre that show ?thesis by simp
  qed
  have mono: "go ! i \<le> go ! j"
    if "\<forall>c \<in> set ?counts. 0 \<le> c" "i \<le> j" "j \<le> nat ?s" for i j
    using pre that sum_list_take_mono [of ?counts i j] by simp
  have "go ! 0 = 0" using pre by simp
  moreover have "go ! nat ?s = sum_list ?counts" using pre lc by simp
  ultimately show ?thesis
    using run new lgo step mono by (auto simp: me'_def intro!: exI [of _ me'] exI [of _ go])
qed

theorem offset_table_prefix_sum_witness:
  "\<exists>me'. share_owned_count [4, 0, 5] meta_example = Inr me'
       \<and> goffset me' = Some [0, 4, 7, 12] \<and> global_offset (lnodes me') = 4
       \<and> global_owned_count (lnodes me') = [4, 3, 5]"
proof -
  have h: "0 \<le> mpirank meta_example" "mpirank meta_example < mpisize meta_example"
    "length [4, 0, 5 :: int] = nat (mpisize meta_example)"
    by (simp_all add: meta_example_def)
  from offset_table_prefix_sum [OF h] obtain me' go where
    run: "share_owned_count [4, 0, 5] meta_example = Inr me'"
    and go: "goffset me' = Some go"
    and cnt: "global_owned_count (lnodes me') = [4, 3, 5]"
    and l: "length go = 4"
    and z: "go ! 0 = 0"
    and st: "\<forall>r < 3. go ! Suc r = go ! r + [4, 3, 5] ! r"
    and off: "global_offset (lnodes me') = go ! 1"
    by (auto simp: meta_example_def)
  from st z have "go ! 1 = 4" "go ! 2 = 7" "go ! 3 = 12"
    by (simp_all add: all_less_3 numeral_2_eq_2 numeral_3_eq_3)
  with l z have "go = [0, 4, 7, 12]"
    by (cases go; cases "tl go"; cases "tl (tl go)"; cases "tl (tl (tl go))";
        cases "tl (tl (tl (tl go)))") (auto simp: numeral_2_eq_2 numeral_3_eq_3)
  with run go cnt off \<open>go ! 1 = 4\<close> show ?thesis by simp
qed

subsection \<open>Recording replies and queries\<close>

text \<open>
  Claim C3 (amended). Both recorders drop an index equal to the record's last-added
  index. \<^verbatim>\<open>peer_add_reply\<close> takes positive owned indices in non-decreasing order: a
  larger one is counted, a smaller one fails the assertion. \<^verbatim>\<open>peer_add_query\<close> takes
  the negative placeholders \<open>-1 - k\<close>, which arrive in non-increasing order: a strictly
  smaller index is recorded with its position, and it is a strictly larger index
  arriving after a smaller one that fails the assertion.
\<close>

theorem peer_add_dedup_order:
  "(0 < lni \<longrightarrow>
      (lastadd rp = lni \<longrightarrow> peer_add_reply rp lni = Inr rp)
    \<and> (lastadd rp < lni \<longrightarrow>
         peer_add_reply rp lni = Inr (rp\<lparr>bufcount := bufcount rp + 1, lastadd := lni\<rparr>))
    \<and> (lni < lastadd rp \<longrightarrow>
         peer_add_reply rp lni = Inl (Assertion ''peer->lastadd <= lni'')))
   \<and> (0 \<le> gpos \<and> lnq < 0 \<and> length (localind qp) = length (querypos qp) \<longrightarrow>
      (lastadd qp = lnq \<longrightarrow> peer_add_query qp gpos lnq = Inr qp)
    \<and> (lnq < lastadd qp \<longrightarrow>
         peer_add_query qp gpos lnq =
           Inr (qp\<lparr>localind := localind qp @ [lnq], querypos := querypos qp @ [gpos],
                   lastadd := lnq\<rparr>))
    \<and> (lastadd qp < lnq \<longrightarrow>
         peer_add_query qp gpos lnq = Inl (Assertion ''peer->lastadd >= lni'')))"
  by (simp add: peer_add_reply_def peer_add_query_def)

theorem peer_add_dedup_order_witness:
  "peer_add_reply reply_peer_example 4 = Inr reply_peer_example
   \<and> peer_add_reply reply_peer_example 5 =
       Inr (reply_peer_example\<lparr>bufcount := 2, lastadd := 5\<rparr>)
   \<and> peer_add_reply reply_peer_example 3 = Inl (Assertion ''peer->lastadd <= lni'')
   \<and> peer_add_query query_peer_example 67 (-1) = Inr query_peer_example
   \<and> peer_add_query query_peer_example 67 (-2) =
       Inr (query_peer_example\<lparr>localind := [-1, -2], querypos := [42, 67], lastadd := -2\<rparr>)
   \<and> peer_add_query (query_peer_example\<lparr>lastadd := -2\<rparr>) 67 (-1)
       = Inl (Assertion ''peer->lastadd >= lni'')"
  using peer_add_dedup_order [of 4 reply_peer_example 67 "-1" query_peer_example]
    peer_add_dedup_order [of 5 reply_peer_example 67 "-2" query_peer_example]
    peer_add_dedup_order [of 3 reply_peer_example 67 "-1" "query_peer_example\<lparr>lastadd := -2\<rparr>"]
  by (simp add: reply_peer_example_def query_peer_example_def)

text \<open>
  The claim as stated fails for \<^verbatim>\<open>peer_add_query\<close>: the index \<open>-2\<close> arriving after
  \<open>-1\<close> is strictly smaller and is recorded, not refused.
\<close>

theorem peer_add_query_order_counterexample:
  "(-2 :: int) < lastadd query_peer_example
   \<and> peer_add_query query_peer_example 67 (-2) =
       Inr \<lparr>rank = 0, done_flag = 0, lastadd = -2, bufcount = 0,
            localind = [-1, -2], querypos = [42, 67]\<rparr>"
  by (simp add: peer_add_query_def query_peer_example_def)

subsection \<open>What a successful call has checked and done\<close>

lemma set_lnodes_corner_center_Inr:
  assumes "set_lnodes_corner_center ln le lni = Inr ln'"
  shows "(vnodes ln = 9 \<or> vnodes ln = 25) \<and> 0 \<le> le \<and> le < num_local_elements ln
       \<and> in_bounds (element_nodes ln) (le * vnodes ln)
       \<and> element_nodes ln ! nat (le * vnodes ln) = 0
       \<and> ln' = ln\<lparr>element_nodes := (element_nodes ln)[nat (le * vnodes ln) := lni],
                   written := written ln @ [le * vnodes ln]\<rparr>"
  using assms by (auto simp: set_lnodes_corner_center_def Let_def split: if_splits)

lemma set_lnodes_face_full_Inr:
  assumes "set_lnodes_face_full me le f lni = Inr me'"
  shows "vnodes (lnodes me) = 25 \<and> 0 \<le> le \<and> le < num_local_elements (lnodes me)
       \<and> 0 \<le> f \<and> f < 4
       \<and> in_bounds (element_nodes (lnodes me)) (le * 25 + 17 + 2 * f)
       \<and> element_nodes (lnodes me) ! nat (le * 25 + 17 + 2 * f) = 0
       \<and> in_bounds (element_nodes (lnodes me)) (le * 25 + 17 + 2 * f + 1)
       \<and> element_nodes (lnodes me) ! nat (le * 25 + 17 + 2 * f + 1) = 0
       \<and> me' = me\<lparr>lnodes := (lnodes me)\<lparr>element_nodes :=
                          (element_nodes (lnodes me))[nat (le * 25 + 17 + 2 * f) := lni],
                        written := written (lnodes me) @ [le * 25 + 17 + 2 * f]\<rparr>,
                   remotepos := (if lni < 0 then remotepos me @ [le * 25 + 17 + 2 * f]
                                 else remotepos me)\<rparr>"
  using assms
  by (auto simp: set_lnodes_face_full_def pos_lnodes_face_full_def P4EST_FACES_def Let_def
        algebra_simps split: if_splits)

lemma peer_access_Inr:
  assumes "peer_access me q = Inr (me1, pi)"
  shows "q \<noteq> mpirank me \<and> 0 \<le> q \<and> q < mpisize me \<and> ghost_rank me \<noteq> None
       \<and> pi < length (peers me1) \<and> rank (peers me1 ! pi) = q
       \<and> ((me1 = me) \<or>
           (\<exists>pp. me1 = me\<lparr>peers := peers me @ [new_peer q], proc_peer := Some pp\<rparr>
                 \<and> pi = length (peers me)))"
  using assms
  by (auto simp: peer_access_def Let_def in_bounds_def new_peer_def
           split: option.splits if_splits)

lemma iter_face1_conforming:
  assumes "sides fi = [fs0, fs1]" "\<not> is_hanging fs0" "\<not> is_hanging fs1" "with_faces me"
    and "iter_face1 fi me = Inr me'"
  obtains q0 g0 q1 g1 is_owned owner lni me1 me2 where
    "face_side_rank me fs0 = Inr (q0, g0)" "face_side_rank me fs1 = Inr (q1, g1)"
    "owner_update (owner_update (True, mpirank me) q0) q1 = (is_owned, owner)"
    "assign_lni me is_owned owner = Inr (lni, me1)"
    "face_side_assign me1 fs0 q0 g0 is_owned owner lni = Inr me2"
    "face_side_assign me2 fs1 q1 g1 is_owned owner lni = Inr me'"
  using assms
  by (auto simp: iter_face1_def Let_def split: sum.splits prod.splits)


lemma assign_lni_Inr:
  assumes "assign_lni me is_owned owner = Inr (lni, me1)"
  shows "(is_owned \<longrightarrow> owner = mpirank me \<and> lni = num_owned me
             \<and> me1 = me\<lparr>num_owned := num_owned me + 1\<rparr>)
       \<and> (\<not> is_owned \<longrightarrow> owner < mpirank me \<and> lni = -1 - num_shared me
             \<and> me1 = me\<lparr>num_shared := num_shared me + 1\<rparr>)"
  using assms by (auto simp: assign_lni_def split: if_splits)




lemma face_side_assign_remote:
  assumes r: "face_side_assign me fs q g is_owned owner lni = Inr me'"
    and q: "q \<noteq> mpirank me" "0 \<le> q"
  shows "\<exists>me1 pi. peer_access me q = Inr (me1, pi)
       \<and> (is_owned \<longrightarrow> mpirank me < q
            \<and> (\<exists>peer'. peer_add_reply (peers me1 ! pi) lni = Inr peer'
                  \<and> me' = me1\<lparr>peers := (peers me1)[pi := peer']\<rparr>))
       \<and> (\<not> is_owned \<and> q = owner \<longrightarrow> q < mpirank me
            \<and> (\<exists>peer'. peer_add_query (peers me1 ! pi) g lni = Inr peer'
                  \<and> me' = me1\<lparr>peers := (peers me1)[pi := peer']\<rparr>))
       \<and> (\<not> is_owned \<and> q \<noteq> owner \<longrightarrow> me' = me1 \<and> owner < mpirank me \<and> owner < q)"
proof (cases "peer_access me q")
  case (Inl e)
  with r q show ?thesis by (simp add: face_side_assign_def)
next
  case (Inr res)
  obtain me1 pi where res: "res = (me1, pi)" by (cases res)
  show ?thesis
  proof (cases is_owned)
    case True
    with r q Inr res show ?thesis
      by (cases "peer_add_reply (peers me1 ! pi) lni")
         (simp_all add: face_side_assign_def split: if_splits)
  next
    case False
    show ?thesis
    proof (cases "q = owner")
      case True
      with r q Inr res \<open>\<not> is_owned\<close> show ?thesis
        by (cases "peer_add_query (peers me1 ! pi) g lni")
           (simp_all add: face_side_assign_def split: if_splits)
    next
      case False
      with r q Inr res \<open>\<not> is_owned\<close> show ?thesis
        by (simp add: face_side_assign_def split: if_splits)
    qed
  qed
qed

lemma face_side_assign_local:
  assumes r: "face_side_assign me fs q g is_owned owner lni = Inr me'"
    and q: "q = mpirank me"
  shows "\<exists>le. local_element me fs = Inr le \<and> set_lnodes_face_full me le (face fs) lni = Inr me'"
  using r q by (cases "local_element me fs") (simp_all add: face_side_assign_def)

lemma face_side_assign_skip:
  assumes r: "face_side_assign me fs q g is_owned owner lni = Inr me'"
    and q: "q \<noteq> mpirank me" "\<not> 0 \<le> q"
  shows "me' = me"
  using r q by (simp add: face_side_assign_def)

lemma face_side_assign_frame:
  assumes r: "face_side_assign me fs q g is_owned owner lni = Inr me'"
  shows "mpirank me' = mpirank me \<and> mpisize me' = mpisize me \<and> p4est me' = p4est me
       \<and> num_owned me' = num_owned me \<and> num_shared me' = num_shared me
       \<and> lenum me' = lenum me \<and> with_faces me' = with_faces me \<and> ghost me' = ghost me
       \<and> ghost_rank me' = ghost_rank me \<and> posted me' = posted me
       \<and> (q \<noteq> mpirank me \<longrightarrow> lnodes me' = lnodes me \<and> remotepos me' = remotepos me)
       \<and> (q = mpirank me \<longrightarrow> peers me' = peers me \<and> proc_peer me' = proc_peer me)"
proof (cases "q = mpirank me")
  case True
  from face_side_assign_local [OF r True] obtain le where
    "set_lnodes_face_full me le (face fs) lni = Inr me'" by blast
  from set_lnodes_face_full_Inr [OF this] True show ?thesis by simp
next
  case False
  show ?thesis
  proof (cases "0 \<le> q")
    case False
    with face_side_assign_skip [OF r \<open>q \<noteq> mpirank me\<close>] \<open>q \<noteq> mpirank me\<close> show ?thesis by simp
  next
    case True
    from face_side_assign_remote [OF r False True] obtain me1 pi where
      pa: "peer_access me q = Inr (me1, pi)"
      and rest: "me' = me1 \<or> (\<exists>peer'. me' = me1\<lparr>peers := (peers me1)[pi := peer']\<rparr>)"
      by (cases is_owned; cases "q = owner") auto
    from peer_access_Inr [OF pa] have
      "me1 = me \<or> (\<exists>pp. me1 = me\<lparr>peers := peers me @ [new_peer q], proc_peer := Some pp\<rparr>)"
      by blast
    with rest False show ?thesis by auto
  qed
qed

lemma face_side_rank_value:
  assumes "face_side_rank me fs = Inr (q, g)"
  shows "(\<forall>quadid. side_data fs = Full False quadid \<longrightarrow> q = mpirank me)
       \<and> (\<forall>quadid. side_data fs = Full True quadid \<and> quadid < 0 \<longrightarrow> q = -1)
       \<and> (\<forall>quadid. side_data fs = Full True quadid \<and> 0 \<le> quadid \<longrightarrow>
             (\<exists>gr gh. ghost_rank me = Some gr \<and> ghost me = Some gh
                \<and> in_bounds gr quadid \<and> q = gr ! nat quadid
                \<and> in_bounds (ghosts gh) quadid
                \<and> g = wrap32 (wrap32 (local_num (ghosts gh ! nat quadid) * vnodes (lnodes me))
                              + (17 + 2 * face fs))))"
  using assms
  by (auto simp: face_side_rank_def pos_lnodes_face_full_def Let_def
           split: face_side_data.splits if_splits option.splits)


lemmas example_defs = meta_ghost_example_def lower_ghost_side_def higher_ghost_side_def
  local_side_def hanging_side_def face_to_lower_def face_hanging_def

lemmas callback_defs = iter_face1_def face_side_rank_def owner_update_def assign_lni_def
  face_side_assign_def local_element_def tree_quadrants_offset_def set_lnodes_face_full_def
  pos_lnodes_face_full_def peer_access_def peer_add_reply_def peer_add_query_def new_peer_def
  hanging_side_rank_def is_hanging_def in_bounds_def P4EST_FACES_def P4EST_CONNECT_FACE_def
  wrap32_def


subsection \<open>Ownership on a conforming face\<close>





subsection \<open>Hanging faces and corners\<close>

text \<open>
  Claim C8. A face visit with a hanging side that returns, and every corner visit, leave
  the whole context as it was: no slot is stored to (\<open>written\<close> and \<open>element_nodes\<close> are
  unchanged), the counters keep their values, and no peer record, reply obligation,
  query or posted operation appears.
\<close>

theorem hanging_and_corner_leave_state:
  "((\<exists>fs \<in> set (sides fi). is_hanging fs) \<and> iter_face1 fi me = Inr me' \<longrightarrow> me' = me)
   \<and> visit_callback Corner me = Inr me
   \<and> iter_corner1 ci me = me"
proof -
  have "me' = me" if h: "\<exists>fs \<in> set (sides fi). is_hanging fs" and r: "iter_face1 fi me = Inr me'"
  proof (cases "sides fi")
    case Nil
    with r show ?thesis by (simp add: iter_face1_def)
  next
    case (Cons fs0 rest)
    show ?thesis
    proof (cases rest)
      case Nil
      with Cons h r show ?thesis
        by (auto simp: iter_face1_def is_hanging_def split: face_side_data.splits if_splits)
    next
      case (Cons fs1 rest')
      show ?thesis
      proof (cases rest')
        case Nil
        with \<open>sides fi = fs0 # rest\<close> \<open>rest = fs1 # rest'\<close> h r show ?thesis
          by (auto simp: iter_face1_def split: if_splits sum.splits)
      next
        case (Cons a list)
        with \<open>sides fi = fs0 # rest\<close> \<open>rest = fs1 # rest'\<close> r show ?thesis
          by (simp add: iter_face1_def)
      qed
    qed
  qed
  then show ?thesis by (simp add: iter_corner1_def)
qed

theorem hanging_and_corner_leave_state_witness:
  "iter_face1 face_hanging meta_ghost_example = Inr meta_ghost_example
   \<and> visit_callback Corner meta_ghost_example = Inr meta_ghost_example"
proof -
  have "\<exists>me'. iter_face1 face_hanging meta_ghost_example = Inr me'"
    by (simp add: example_defs callback_defs Let_def)
  then obtain me' where run: "iter_face1 face_hanging meta_ghost_example = Inr me'" by blast
  have "\<exists>fs \<in> set (sides face_hanging). is_hanging fs"
    by (simp add: example_defs is_hanging_def)
  with run hanging_and_corner_leave_state [of face_hanging meta_ghost_example me']
  show ?thesis by simp
qed

subsection \<open>The callbacks, case by case\<close>

lemma iter_volume1_Inr:
  assumes "iter_volume1 vi me = Inr me'"
  shows "\<exists>ln'. set_lnodes_corner_center (lnodes me) (lenum me) (num_owned me) = Inr ln'
           \<and> me' = me\<lparr>lenum := lenum me + 1, num_owned := num_owned me + 1, lnodes := ln'\<rparr>"
  using assms
  by (auto simp: iter_volume1_def Let_def split: sum.splits if_splits)

lemma iter_face1_boundary:
  assumes "sides fi = [fs]" "iter_face1 fi me = Inr me'"
  shows "(\<not> with_faces me \<and> me' = me)
       \<or> (with_faces me \<and> (\<exists>le. local_element me fs = Inr le
             \<and> set_lnodes_face_full (me\<lparr>num_owned := num_owned me + 1\<rparr>) le (face fs)
                  (num_owned me) = Inr me'))"
  using assms
  by (auto simp: iter_face1_def split: face_side_data.splits sum.splits if_splits)

lemma iter_face1_sides:
  assumes "iter_face1 fi me = Inr me'"
  shows "(\<exists>fs. sides fi = [fs]) \<or> (\<exists>fs0 fs1. sides fi = [fs0, fs1])"
proof (cases "sides fi")
  case Nil
  with assms show ?thesis by (simp add: iter_face1_def)
next
  case (Cons fs0 rest)
  note c0 = this
  show ?thesis
  proof (cases rest)
    case Nil
    with c0 show ?thesis by simp
  next
    case (Cons fs1 rest')
    with c0 assms show ?thesis by (cases rest') (simp_all add: iter_face1_def)
  qed
qed

lemma iter_face1_two_sides:
  assumes "sides fi = [fs0, fs1]" "iter_face1 fi me = Inr me'"
  shows "me' = me \<or> (\<not> is_hanging fs0 \<and> \<not> is_hanging fs1 \<and> with_faces me)"
  using assms by (auto simp: iter_face1_def split: if_splits sum.splits)

lemma iter_face1_cases [consumes 1, case_names same boundary conforming]:
  assumes "iter_face1 fi me = Inr me'"
  obtains
    (same) "me' = me"
  | (boundary) fs le where "sides fi = [fs]" "with_faces me" "local_element me fs = Inr le"
      "set_lnodes_face_full (me\<lparr>num_owned := num_owned me + 1\<rparr>) le (face fs) (num_owned me)
         = Inr me'"
  | (conforming) fs0 fs1 q0 g0 q1 g1 is_owned owner lni me1 me2 where
      "sides fi = [fs0, fs1]" "\<not> is_hanging fs0" "\<not> is_hanging fs1" "with_faces me"
      "face_side_rank me fs0 = Inr (q0, g0)" "face_side_rank me fs1 = Inr (q1, g1)"
      "owner_update (owner_update (True, mpirank me) q0) q1 = (is_owned, owner)"
      "assign_lni me is_owned owner = Inr (lni, me1)"
      "face_side_assign me1 fs0 q0 g0 is_owned owner lni = Inr me2"
      "face_side_assign me2 fs1 q1 g1 is_owned owner lni = Inr me'"
proof -
  from iter_face1_sides [OF assms] consider
    fs where "sides fi = [fs]" | fs0 fs1 where "sides fi = [fs0, fs1]" by blast
  then show thesis
  proof cases
    case 1
    from iter_face1_boundary [OF 1 assms] 1 show thesis
      using same boundary by blast
  next
    case 2
    from iter_face1_two_sides [OF 2 assms] consider "me' = me"
      | "\<not> is_hanging fs0" "\<not> is_hanging fs1" "with_faces me" by blast
    then show thesis
    proof cases
      case 1
      then show thesis by (rule same)
    next
      case 2
      note c = this
      show thesis
        by (rule iter_face1_conforming [OF \<open>sides fi = [fs0, fs1]\<close> c assms])
           (rule conforming [OF \<open>sides fi = [fs0, fs1]\<close> c])
    qed
  qed
qed

lemma iter_face1_counters:
  assumes "iter_face1 fi me = Inr me'"
  shows "num_owned me \<le> num_owned me' \<and> num_shared me \<le> num_shared me'
       \<and> lenum me' = lenum me \<and> mpirank me' = mpirank me \<and> p4est me' = p4est me
       \<and> with_faces me' = with_faces me \<and> ghost me' = ghost me
       \<and> vnodes (lnodes me') = vnodes (lnodes me)"
  using assms
proof (cases rule: iter_face1_cases)
  case same
  then show ?thesis by simp
next
  case (boundary fs le)
  from set_lnodes_face_full_Inr [OF boundary(4)] show ?thesis by simp
next
  case (conforming fs0 fs1 q0 g0 q1 g1 is_owned owner lni me1 me2)
  note l = assign_lni_Inr [OF conforming(8)]
  note f0 = face_side_assign_frame [OF conforming(9)]
  note f1 = face_side_assign_frame [OF conforming(10)]
  have v: "vnodes (lnodes me') = vnodes (lnodes me1)"
  proof -
    have a: "vnodes (lnodes b) = vnodes (lnodes a)"
      if "face_side_assign a fs q g is_owned owner lni = Inr b" for a b fs q g
    proof (cases "q = mpirank a")
      case True
      from face_side_assign_local [OF that True] obtain le where
        "set_lnodes_face_full a le (face fs) lni = Inr b" by blast
      from set_lnodes_face_full_Inr [OF this] show ?thesis by simp
    next
      case False
      with face_side_assign_frame [OF that] show ?thesis by simp
    qed
    from a [OF conforming(9)] a [OF conforming(10)] show ?thesis by simp
  qed
  from l f0 f1 v show ?thesis by (cases is_owned) simp_all
qed

lemma visit_callback_counters:
  assumes "visit_callback v me = Inr me'"
  shows "num_owned me \<le> num_owned me' \<and> num_shared me \<le> num_shared me'
       \<and> lenum me \<le> lenum me' \<and> mpirank me' = mpirank me \<and> p4est me' = p4est me
       \<and> with_faces me' = with_faces me \<and> ghost me' = ghost me
       \<and> vnodes (lnodes me') = vnodes (lnodes me)"
proof (cases v)
  case (Volume vi)
  with assms have "iter_volume1 vi me = Inr me'" by simp
  from iter_volume1_Inr [OF this] obtain ln' where
    s: "set_lnodes_corner_center (lnodes me) (lenum me) (num_owned me) = Inr ln'"
    and m: "me' = me\<lparr>lenum := lenum me + 1, num_owned := num_owned me + 1, lnodes := ln'\<rparr>"
    by blast
  from set_lnodes_corner_center_Inr [OF s] m show ?thesis by simp
next
  case (Face fi)
  with assms iter_face1_counters [of fi me me'] show ?thesis by simp
next
  case Corner
  with assms show ?thesis by (simp add: iter_corner1_def)
qed


lemma trimesh_init_example:
  "trimesh_init p4est_example (Some ghost_layer_example) True = Inr meta_start_example"
  by code_simp


subsection \<open>The first reply to a peer\<close>








subsection \<open>Peer records when the requests are posted\<close>









text \<open>What the posting phase has checked and left, when it returns.\<close>

lemma post_peer_result:
  assumes "post_peer iz me = Inr me'"
  shows "iz < length (peers me) \<and> iz < length (pereq me)
       \<and> (\<exists>peer' req. me' = me\<lparr>peers := (peers me)[iz := peer'],
                                 pereq := (pereq me)[iz := req],
                                 posted := posted me @ [req]\<rparr>
            \<and> ((mpirank me < rank (peers me ! iz)
               \<and> 0 < bufcount (peers me ! iz) \<and> querypos (peers me ! iz) = []
                 \<and> peer' = (peers me ! iz)
                      \<lparr>querypos := replicate (nat (bufcount (peers me ! iz))) 0, done_flag := 1\<rparr>
                 \<and> req = Irecv (bufcount (peers me ! iz)) (rank (peers me ! iz))
                           P4EST_COMM_TNODES_QUERY)
              \<or> (rank (peers me ! iz) < mpirank me
               \<and> querypos (peers me ! iz) \<noteq> [] \<and> bufcount (peers me ! iz) = 0
                 \<and> peer' = (peers me ! iz)
                      \<lparr>bufcount := int (length (querypos (peers me ! iz))), done_flag := 3\<rparr>
                 \<and> req = Isend (querypos (peers me ! iz)) (rank (peers me ! iz))
                           P4EST_COMM_TNODES_QUERY)))"
  using assms
  by (auto simp: post_peer_def Let_def in_bounds_def split: if_splits)

lemma post_loop_result:
  assumes "run_steps post_peer [i..<n] me = Inr me'"
    and "n = length (peers me)" "length (pereq me) = n" "i \<le> n"
  shows "lnodes me' = lnodes me \<and> num_owned me' = num_owned me \<and> mpirank me' = mpirank me
       \<and> length (peers me') = n \<and> length (pereq me') = n
       \<and> (\<forall>iz. iz < i \<longrightarrow> peers me' ! iz = peers me ! iz \<and> pereq me' ! iz = pereq me ! iz)
       \<and> (\<forall>iz. i \<le> iz \<and> iz < n \<longrightarrow>
            (mpirank me < rank (peers me ! iz)
               \<and> 0 < bufcount (peers me ! iz) \<and> querypos (peers me ! iz) = []
               \<and> peers me' ! iz = (peers me ! iz)
                    \<lparr>querypos := replicate (nat (bufcount (peers me ! iz))) 0, done_flag := 1\<rparr>
               \<and> pereq me' ! iz = Irecv (bufcount (peers me ! iz)) (rank (peers me ! iz))
                                    P4EST_COMM_TNODES_QUERY)
          \<or> (rank (peers me ! iz) < mpirank me
               \<and> querypos (peers me ! iz) \<noteq> [] \<and> bufcount (peers me ! iz) = 0
               \<and> peers me' ! iz = (peers me ! iz)
                    \<lparr>bufcount := int (length (querypos (peers me ! iz))), done_flag := 3\<rparr>
               \<and> pereq me' ! iz = Isend (querypos (peers me ! iz)) (rank (peers me ! iz))
                                    P4EST_COMM_TNODES_QUERY))
       \<and> (\<forall>R q. Isend R q P4EST_COMM_TNODES_REPLY \<in> set (posted me')
             \<longrightarrow> Isend R q P4EST_COMM_TNODES_REPLY \<in> set (posted me))"
  using assms
proof (induction "n - i" arbitrary: i me)
  case 0
  then have "i = n" by simp
  with 0 show ?case by auto
next
  case (Suc d)
  then have i: "i < n" by simp
  from Suc.prems(1) i obtain m1 where
    p: "post_peer i me = Inr m1" and r: "run_steps post_peer [Suc i..<n] m1 = Inr me'"
    by (auto simp: upt_conv_Cons split: sum.splits)
  from post_peer_result [OF p] obtain peer' req where
    m1: "m1 = me\<lparr>peers := (peers me)[i := peer'], pereq := (pereq me)[i := req],
                  posted := posted me @ [req]\<rparr>"
    and pr: "(mpirank me < rank (peers me ! i)
                 \<and> 0 < bufcount (peers me ! i) \<and> querypos (peers me ! i) = []
                 \<and> peer' = (peers me ! i)
                      \<lparr>querypos := replicate (nat (bufcount (peers me ! i))) 0, done_flag := 1\<rparr>
                 \<and> req = Irecv (bufcount (peers me ! i)) (rank (peers me ! i))
                           P4EST_COMM_TNODES_QUERY)
              \<or> (rank (peers me ! i) < mpirank me
                 \<and> querypos (peers me ! i) \<noteq> [] \<and> bufcount (peers me ! i) = 0
                 \<and> peer' = (peers me ! i)
                      \<lparr>bufcount := int (length (querypos (peers me ! i))), done_flag := 3\<rparr>
                 \<and> req = Isend (querypos (peers me ! i)) (rank (peers me ! i))
                           P4EST_COMM_TNODES_QUERY)"
    by blast
  have ih: "lnodes me' = lnodes m1 \<and> num_owned me' = num_owned m1 \<and> mpirank me' = mpirank m1
       \<and> length (peers me') = n \<and> length (pereq me') = n
       \<and> (\<forall>iz. iz < Suc i \<longrightarrow> peers me' ! iz = peers m1 ! iz \<and> pereq me' ! iz = pereq m1 ! iz)
       \<and> (\<forall>iz. Suc i \<le> iz \<and> iz < n \<longrightarrow>
            (mpirank m1 < rank (peers m1 ! iz)
               \<and> 0 < bufcount (peers m1 ! iz) \<and> querypos (peers m1 ! iz) = []
               \<and> peers me' ! iz = (peers m1 ! iz)
                    \<lparr>querypos := replicate (nat (bufcount (peers m1 ! iz))) 0, done_flag := 1\<rparr>
               \<and> pereq me' ! iz = Irecv (bufcount (peers m1 ! iz)) (rank (peers m1 ! iz))
                                    P4EST_COMM_TNODES_QUERY)
          \<or> (rank (peers m1 ! iz) < mpirank m1
               \<and> querypos (peers m1 ! iz) \<noteq> [] \<and> bufcount (peers m1 ! iz) = 0
               \<and> peers me' ! iz = (peers m1 ! iz)
                    \<lparr>bufcount := int (length (querypos (peers m1 ! iz))), done_flag := 3\<rparr>
               \<and> pereq me' ! iz = Isend (querypos (peers m1 ! iz)) (rank (peers m1 ! iz))
                                    P4EST_COMM_TNODES_QUERY))
       \<and> (\<forall>R q. Isend R q P4EST_COMM_TNODES_REPLY \<in> set (posted me')
             \<longrightarrow> Isend R q P4EST_COMM_TNODES_REPLY \<in> set (posted m1))"
    by (rule Suc.hyps(1) [OF _ r]) (use Suc.hyps(2) Suc.prems i in \<open>simp_all add: m1\<close>)
  have a: "lnodes me' = lnodes me \<and> num_owned me' = num_owned me \<and> mpirank me' = mpirank me
       \<and> length (peers me') = n \<and> length (pereq me') = n"
    using ih by (simp add: m1)
  have b: "peers me' ! iz = peers me ! iz \<and> pereq me' ! iz = pereq me ! iz" if "iz < i" for iz
    using ih that by (simp add: m1)
  have at_i: "peers me' ! i = peer' \<and> pereq me' ! i = req"
    using ih i Suc.prems by (simp add: m1)
  have c: "(mpirank me < rank (peers me ! iz)
               \<and> 0 < bufcount (peers me ! iz) \<and> querypos (peers me ! iz) = []
               \<and> peers me' ! iz = (peers me ! iz)
                    \<lparr>querypos := replicate (nat (bufcount (peers me ! iz))) 0, done_flag := 1\<rparr>
               \<and> pereq me' ! iz = Irecv (bufcount (peers me ! iz)) (rank (peers me ! iz))
                                    P4EST_COMM_TNODES_QUERY)
          \<or> (rank (peers me ! iz) < mpirank me
               \<and> querypos (peers me ! iz) \<noteq> [] \<and> bufcount (peers me ! iz) = 0
               \<and> peers me' ! iz = (peers me ! iz)
                    \<lparr>bufcount := int (length (querypos (peers me ! iz))), done_flag := 3\<rparr>
               \<and> pereq me' ! iz = Isend (querypos (peers me ! iz)) (rank (peers me ! iz))
                                    P4EST_COMM_TNODES_QUERY)"
    if "i \<le> iz \<and> iz < n" for iz
  proof (cases "iz = i")
    case True
    with at_i pr show ?thesis by simp
  next
    case False
    with that have "Suc i \<le> iz \<and> iz < n" by simp
    with ih False show ?thesis by (simp add: m1)
  qed
  have d: "\<forall>R q. Isend R q P4EST_COMM_TNODES_REPLY \<in> set (posted me')
             \<longrightarrow> Isend R q P4EST_COMM_TNODES_REPLY \<in> set (posted me)"
    using ih pr by (auto simp: m1)
  from a b c d show ?case by blast
qed

lemma post_query_reply_result:
  assumes "post_query_reply me = Inr me'"
  shows "lnodes me' = lnodes me \<and> num_owned me' = num_owned me \<and> mpirank me' = mpirank me
       \<and> length (peers me') = length (peers me) \<and> length (pereq me') = length (peers me)
       \<and> (\<forall>iz < length (peers me).
            (mpirank me < rank (peers me ! iz)
               \<and> 0 < bufcount (peers me ! iz) \<and> querypos (peers me ! iz) = []
               \<and> peers me' ! iz = (peers me ! iz)
                    \<lparr>querypos := replicate (nat (bufcount (peers me ! iz))) 0, done_flag := 1\<rparr>
               \<and> pereq me' ! iz = Irecv (bufcount (peers me ! iz)) (rank (peers me ! iz))
                                    P4EST_COMM_TNODES_QUERY)
          \<or> (rank (peers me ! iz) < mpirank me
               \<and> querypos (peers me ! iz) \<noteq> [] \<and> bufcount (peers me ! iz) = 0
               \<and> peers me' ! iz = (peers me ! iz)
                    \<lparr>bufcount := int (length (querypos (peers me ! iz))), done_flag := 3\<rparr>
               \<and> pereq me' ! iz = Isend (querypos (peers me ! iz)) (rank (peers me ! iz))
                                    P4EST_COMM_TNODES_QUERY))
       \<and> (\<forall>R q. Isend R q P4EST_COMM_TNODES_REPLY \<in> set (posted me')
             \<longrightarrow> Isend R q P4EST_COMM_TNODES_REPLY \<in> set (posted me))"
proof -
  let ?m0 = "me\<lparr>pereq := replicate (length (peers me)) Request_null\<rparr>"
  from assms have r: "run_steps post_peer [0..<length (peers me)] ?m0 = Inr me'"
    by (simp add: post_query_reply_def Let_def)
  from post_loop_result [OF r] show ?thesis by simp
qed








subsection \<open>Every slot is stored to once\<close>

lemma slots_once_corner:
  assumes inv: "slots_once n ln"
    and s: "set_lnodes_corner_center ln n lni = Inr ln'"
  shows "slots_once (n + 1) ln'"
proof -
  let ?p = "n * vnodes ln"
  from set_lnodes_corner_center_Inr [OF s] have
    vn: "vnodes ln = 9 \<or> vnodes ln = 25" and n0: "0 \<le> n"
    and inb: "in_bounds (element_nodes ln) ?p" and z: "element_nodes ln ! nat ?p = 0"
    and ln': "ln' = ln\<lparr>element_nodes := (element_nodes ln)[nat ?p := lni],
                      written := written ln @ [?p]\<rparr>"
    by simp_all
  have fresh: "?p \<notin> set (written ln)"
  proof
    assume "?p \<in> set (written ln)"
    with inv z obtain k where "k < n" "?p = k * vnodes ln"
      by (auto simp: slots_once_def)
    with vn show False by auto
  qed
  have old: "in_bounds (element_nodes ln') p
         \<and> (element_nodes ln' ! nat p \<noteq> 0 \<or> (\<exists>k. 0 \<le> k \<and> k < n + 1 \<and> p = k * vnodes ln'))"
    if p: "p \<in> set (written ln)" for p
  proof -
    from inv p have a: "in_bounds (element_nodes ln) p"
      and b: "element_nodes ln ! nat p \<noteq> 0 \<or> (\<exists>k. 0 \<le> k \<and> k < n \<and> p = k * vnodes ln)"
      by (auto simp: slots_once_def)
    from p fresh have "p \<noteq> ?p" by auto
    with a inb have "nat p \<noteq> nat ?p" by (auto simp: in_bounds_def)
    then have "element_nodes ln' ! nat p = element_nodes ln ! nat p" using ln' by simp
    with a b ln' show ?thesis by (auto simp: in_bounds_def)
  qed
  have new: "in_bounds (element_nodes ln') ?p \<and> (\<exists>k. 0 \<le> k \<and> k < n + 1 \<and> ?p = k * vnodes ln')"
    using inb n0 ln' by (auto simp: in_bounds_def)
  from inv fresh have "distinct (written ln')" using ln' by (simp add: slots_once_def)
  with old new ln' show ?thesis by (auto simp: slots_once_def)
qed

lemma slots_once_face:
  assumes inv: "slots_once n (lnodes me)"
    and nz: "lni \<noteq> 0"
    and s: "set_lnodes_face_full me le f lni = Inr me'"
  shows "slots_once n (lnodes me')"
proof -
  let ?ln = "lnodes me" and ?p = "le * 25 + 17 + 2 * f"
  from set_lnodes_face_full_Inr [OF s] have
    vn: "vnodes ?ln = 25" and f: "0 \<le> f" "f < 4"
    and inb: "in_bounds (element_nodes ?ln) ?p" and z: "element_nodes ?ln ! nat ?p = 0"
    and ln': "lnodes me' = ?ln\<lparr>element_nodes := (element_nodes ?ln)[nat ?p := lni],
                                written := written ?ln @ [?p]\<rparr>"
    by simp_all
  have fresh: "?p \<notin> set (written ?ln)"
  proof
    assume "?p \<in> set (written ?ln)"
    with inv z vn obtain k where "?p = k * 25"
      by (auto simp: slots_once_def)
    with f show False by presburger
  qed
  have old: "in_bounds (element_nodes (lnodes me')) p
         \<and> (element_nodes (lnodes me') ! nat p \<noteq> 0
              \<or> (\<exists>k. 0 \<le> k \<and> k < n \<and> p = k * vnodes (lnodes me')))"
    if p: "p \<in> set (written ?ln)" for p
  proof -
    from inv p have a: "in_bounds (element_nodes ?ln) p"
      and b: "element_nodes ?ln ! nat p \<noteq> 0 \<or> (\<exists>k. 0 \<le> k \<and> k < n \<and> p = k * vnodes ?ln)"
      by (auto simp: slots_once_def)
    from p fresh have "p \<noteq> ?p" by auto
    with a inb have "nat p \<noteq> nat ?p" by (auto simp: in_bounds_def)
    then have "element_nodes (lnodes me') ! nat p = element_nodes ?ln ! nat p"
      using ln' by simp
    with a b ln' show ?thesis by (auto simp: in_bounds_def)
  qed
  have new: "in_bounds (element_nodes (lnodes me')) ?p
         \<and> element_nodes (lnodes me') ! nat ?p \<noteq> 0"
    using inb nz ln' by (auto simp: in_bounds_def)
  from inv fresh have "distinct (written (lnodes me'))" using ln' by (simp add: slots_once_def)
  with old new ln' show ?thesis by (auto simp: slots_once_def)
qed

lemma slots_once_side:
  assumes inv: "slots_once n (lnodes me)"
    and nz: "lni \<noteq> 0"
    and r: "face_side_assign me fs q g is_owned owner lni = Inr me'"
  shows "slots_once n (lnodes me')"
proof (cases "q = mpirank me")
  case True
  from face_side_assign_local [OF r True] obtain le where
    "set_lnodes_face_full me le (face fs) lni = Inr me'" by blast
  from slots_once_face [OF inv nz this] show ?thesis .
next
  case False
  with face_side_assign_frame [OF r] inv show ?thesis by simp
qed

lemma slots_once_visit:
  assumes inv: "slots_once (lenum me) (lnodes me)"
    and sh: "0 \<le> num_shared me"
    and ow: "1 \<le> num_owned me \<or> (\<forall>fi. v \<noteq> Face fi)"
    and r: "visit_callback v me = Inr me'"
  shows "slots_once (lenum me') (lnodes me')"
proof (cases v)
  case (Volume vi)
  with r have "iter_volume1 vi me = Inr me'" by simp
  from iter_volume1_Inr [OF this] obtain ln' where
    s: "set_lnodes_corner_center (lnodes me) (lenum me) (num_owned me) = Inr ln'"
    and m: "me' = me\<lparr>lenum := lenum me + 1, num_owned := num_owned me + 1, lnodes := ln'\<rparr>"
    by blast
  from slots_once_corner [OF inv s] m show ?thesis by simp
next
  case Corner
  with r inv show ?thesis by (simp add: iter_corner1_def)
next
  case (Face fi)
  with ow have o1: "1 \<le> num_owned me" by simp
  from Face r have "iter_face1 fi me = Inr me'" by simp
  then show ?thesis
  proof (cases rule: iter_face1_cases)
    case same
    with inv show ?thesis by simp
  next
    case (boundary fs le)
    have "slots_once (lenum me) (lnodes (me\<lparr>num_owned := num_owned me + 1\<rparr>))"
      using inv by simp
    from slots_once_face [OF this _ boundary(4)] o1
    have "slots_once (lenum me) (lnodes me')" by simp
    moreover from set_lnodes_face_full_Inr [OF boundary(4)] have "lenum me' = lenum me"
      by simp
    ultimately show ?thesis by simp
  next
    case (conforming fs0 fs1 q0 g0 q1 g1 is_owned owner lni me1 me2)
    note l = assign_lni_Inr [OF conforming(8)]
    have nz: "lni \<noteq> 0" using l o1 sh by (cases is_owned) auto
    have m1: "lnodes me1 = lnodes me" "lenum me1 = lenum me"
      using l by (cases is_owned; simp)+
    have i1: "slots_once (lenum me) (lnodes me1)" using inv m1 by simp
    note i2 = slots_once_side [OF i1 nz conforming(9)]
    note i3 = slots_once_side [OF i2 nz conforming(10)]
    from face_side_assign_frame [OF conforming(9)] face_side_assign_frame [OF conforming(10)] m1
    have "lenum me' = lenum me" by simp
    with i3 show ?thesis by simp
  qed
qed

lemma slots_once_iterate:
  assumes "slots_once (lenum me) (lnodes me)" "0 \<le> num_shared me" "1 \<le> num_owned me"
    and "p4est_iterate visits me = Inr me'"
  shows "slots_once (lenum me') (lnodes me')"
  using assms
proof (induction visits arbitrary: me)
  case Nil
  then show ?case by (simp add: p4est_iterate_def)
next
  case (Cons v vs)
  from Cons.prems(4) obtain me1 where
    v: "visit_callback v me = Inr me1" and rest: "p4est_iterate vs me1 = Inr me'"
    by (auto simp: p4est_iterate_def split: sum.splits)
  have "slots_once (lenum me1) (lnodes me1)"
    by (rule slots_once_visit [OF Cons.prems(1,2) _ v]) (simp add: Cons.prems(3))
  moreover from visit_callback_counters [OF v] Cons.prems(2,3)
  have "0 \<le> num_shared me1" "1 \<le> num_owned me1" by simp_all
  ultimately show ?case using Cons.IH rest by blast
qed

lemma slots_once_volume_first:
  assumes "slots_once (lenum me) (lnodes me)" "0 \<le> num_shared me" "0 \<le> num_owned me"
    and "volume_first visits"
    and "p4est_iterate visits me = Inr me'"
  shows "slots_once (lenum me') (lnodes me')"
  using assms
proof (induction visits arbitrary: me)
  case Nil
  then show ?case by (simp add: p4est_iterate_def)
next
  case (Cons v vs)
  from Cons.prems(5) obtain me1 where
    v: "visit_callback v me = Inr me1" and rest: "p4est_iterate vs me1 = Inr me'"
    by (auto simp: p4est_iterate_def split: sum.splits)
  from Cons.prems(4) have nf: "\<forall>fi. v \<noteq> Face fi" by (cases v) simp_all
  have i1: "slots_once (lenum me1) (lnodes me1)"
    by (rule slots_once_visit [OF Cons.prems(1,2) _ v]) (simp add: nf)
  from visit_callback_counters [OF v] Cons.prems(2,3)
  have c1: "0 \<le> num_shared me1" "0 \<le> num_owned me1" by simp_all
  show ?case
  proof (cases v)
    case (Volume vi)
    with v have "iter_volume1 vi me = Inr me1" by simp
    from iter_volume1_Inr [OF this] Cons.prems(3) have "1 \<le> num_owned me1" by auto
    from slots_once_iterate [OF i1 c1(1) this rest] show ?thesis .
  next
    case (Face fi)
    with nf show ?thesis by simp
  next
    case Corner
    with Cons.prems(4) have "volume_first vs" by simp
    from Cons.IH [OF i1 c1 this rest] show ?thesis .
  qed
qed

lemma stores_logged_refl: "stores_logged ln ln"
  by (simp add: stores_logged_def)

lemma stores_logged_trans:
  assumes "stores_logged a b" "stores_logged b c"
  shows "stores_logged a c"
proof -
  from assms obtain ws vs where
    l: "length (element_nodes b) = length (element_nodes a)"
       "length (element_nodes c) = length (element_nodes b)"
    and w: "written b = written a @ ws" "written c = written b @ vs"
    and k: "\<forall>i < length (element_nodes a). int i \<notin> set ws
               \<longrightarrow> element_nodes b ! i = element_nodes a ! i"
           "\<forall>i < length (element_nodes b). int i \<notin> set vs
               \<longrightarrow> element_nodes c ! i = element_nodes b ! i"
    by (auto simp: stores_logged_def)
  have "written c = written a @ (ws @ vs)" using w by simp
  moreover have "\<forall>i < length (element_nodes a). int i \<notin> set (ws @ vs)
      \<longrightarrow> element_nodes c ! i = element_nodes a ! i"
    using k l by auto
  ultimately show ?thesis using l unfolding stores_logged_def by (metis (no_types, lifting))
qed

lemma stores_logged_corner:
  assumes "set_lnodes_corner_center ln le lni = Inr ln'"
  shows "stores_logged ln ln'"
proof -
  let ?p = "le * vnodes ln"
  from set_lnodes_corner_center_Inr [OF assms] have
    inb: "in_bounds (element_nodes ln) ?p"
    and ln': "ln' = ln\<lparr>element_nodes := (element_nodes ln)[nat ?p := lni],
                      written := written ln @ [?p]\<rparr>"
    by simp_all
  have "\<forall>i < length (element_nodes ln). int i \<notin> set [?p]
      \<longrightarrow> element_nodes ln' ! i = element_nodes ln ! i"
    using inb ln' by (auto simp: in_bounds_def)
  then show ?thesis using ln' unfolding stores_logged_def by (intro conjI exI [of _ "[?p]"]) simp_all
qed

lemma stores_logged_face:
  assumes "set_lnodes_face_full me le f lni = Inr me'"
  shows "stores_logged (lnodes me) (lnodes me')"
proof -
  let ?ln = "lnodes me" and ?p = "le * 25 + 17 + 2 * f"
  from set_lnodes_face_full_Inr [OF assms] have
    inb: "in_bounds (element_nodes ?ln) ?p"
    and ln': "lnodes me' = ?ln\<lparr>element_nodes := (element_nodes ?ln)[nat ?p := lni],
                                written := written ?ln @ [?p]\<rparr>"
    by simp_all
  have "\<forall>i < length (element_nodes ?ln). int i \<notin> set [?p]
      \<longrightarrow> element_nodes (lnodes me') ! i = element_nodes ?ln ! i"
    using inb ln' by (auto simp: in_bounds_def)
  then show ?thesis using ln' unfolding stores_logged_def by (intro conjI exI [of _ "[?p]"]) simp_all
qed

lemma stores_logged_side:
  assumes r: "face_side_assign me fs q g is_owned owner lni = Inr me'"
  shows "stores_logged (lnodes me) (lnodes me')"
proof (cases "q = mpirank me")
  case True
  from face_side_assign_local [OF r True] obtain le where
    "set_lnodes_face_full me le (face fs) lni = Inr me'" by blast
  from stores_logged_face [OF this] show ?thesis .
next
  case False
  with face_side_assign_frame [OF r] show ?thesis by (simp add: stores_logged_refl)
qed

lemma stores_logged_visit:
  assumes r: "visit_callback v me = Inr me'"
  shows "stores_logged (lnodes me) (lnodes me')"
proof (cases v)
  case (Volume vi)
  with r have "iter_volume1 vi me = Inr me'" by simp
  from iter_volume1_Inr [OF this] obtain ln' where
    s: "set_lnodes_corner_center (lnodes me) (lenum me) (num_owned me) = Inr ln'"
    and m: "me' = me\<lparr>lenum := lenum me + 1, num_owned := num_owned me + 1, lnodes := ln'\<rparr>"
    by blast
  from stores_logged_corner [OF s] m show ?thesis by simp
next
  case Corner
  with r show ?thesis by (simp add: iter_corner1_def stores_logged_refl)
next
  case (Face fi)
  with r have "iter_face1 fi me = Inr me'" by simp
  then show ?thesis
  proof (cases rule: iter_face1_cases)
    case same
    then show ?thesis by (simp add: stores_logged_refl)
  next
    case (boundary fs le)
    from stores_logged_face [OF boundary(4)] show ?thesis by simp
  next
    case (conforming fs0 fs1 q0 g0 q1 g1 is_owned owner lni me1 me2)
    have "lnodes me1 = lnodes me"
      using assign_lni_Inr [OF conforming(8)] by (cases is_owned) simp_all
    with stores_logged_trans [OF stores_logged_side [OF conforming(9)]
        stores_logged_side [OF conforming(10)]]
    show ?thesis by simp
  qed
qed

lemma stores_logged_iterate:
  assumes "p4est_iterate visits me = Inr me'"
  shows "stores_logged (lnodes me) (lnodes me')"
  using assms
proof (induction visits arbitrary: me)
  case Nil
  then show ?case by (simp add: p4est_iterate_def stores_logged_refl)
next
  case (Cons v vs)
  from Cons.prems obtain me1 where
    v: "visit_callback v me = Inr me1" and rest: "p4est_iterate vs me1 = Inr me'"
    by (auto simp: p4est_iterate_def split: sum.splits)
  from stores_logged_trans [OF stores_logged_visit [OF v] Cons.IH [OF rest]] show ?case .
qed




subsection \<open>A call without ghost layer\<close>

lemma owned_slots_mono:
  "owned_slots n ln \<Longrightarrow> n \<le> m \<Longrightarrow> owned_slots m ln"
  by (fastforce simp: owned_slots_def)

lemma owned_slots_store:
  assumes inv: "owned_slots n ln" and inb: "in_bounds (element_nodes ln) p"
    and v: "0 \<le> v" "v < n"
  shows "owned_slots n
           (ln\<lparr>element_nodes := (element_nodes ln)[nat p := v], written := written ln @ [p]\<rparr>)"
proof -
  let ?en = "(element_nodes ln)[nat p := v]"
  from inv have n: "0 \<le> n" by (simp add: owned_slots_def)
  have a: "\<forall>x \<in> set ?en. 0 \<le> x"
    using inv v by (auto simp: owned_slots_def dest!: set_update_subset_insert [THEN subsetD])
  have b: "in_bounds ?en r \<and> ?en ! nat r < n" if "r \<in> set (written ln @ [p])" for r
  proof (cases "nat r = nat p")
    case True
    from that inv inb have r: "in_bounds (element_nodes ln) r" by (auto simp: owned_slots_def)
    from inb have "nat p < length (element_nodes ln)" by (auto simp: in_bounds_def)
    with True r v show ?thesis by (simp add: in_bounds_def)
  next
    case False
    with that inb have "r \<in> set (written ln)" by auto
    with inv False show ?thesis by (auto simp: owned_slots_def in_bounds_def)
  qed
  from n a b show ?thesis by (simp add: owned_slots_def)
qed

lemma no_ghost_face_full:
  assumes st: "no_ghost_state me" and sl: "owned_slots (num_owned me) (lnodes me)"
    and v: "0 \<le> lni" "lni < num_owned me"
    and s: "set_lnodes_face_full me le f lni = Inr me'"
  shows "no_ghost_state me' \<and> owned_slots (num_owned me') (lnodes me')"
proof -
  note e = set_lnodes_face_full_Inr [OF s]
  from e have inb: "in_bounds (element_nodes (lnodes me)) (le * 25 + 17 + 2 * f)" by simp
  from e v st have "no_ghost_state me'" by (simp add: no_ghost_state_def)
  moreover from owned_slots_store [OF sl inb v] e
  have "owned_slots (num_owned me') (lnodes me')" by simp
  ultimately show ?thesis by simp
qed

lemma no_ghost_side_rank:
  assumes "ghost me = None" "face_side_rank me fs = Inr (q, g)"
  shows "q = mpirank me \<or> q = -1"
  using assms
  by (auto simp: face_side_rank_def split: face_side_data.splits if_splits)

lemma no_ghost_side_assign:
  assumes q: "q = mpirank me \<or> q = -1"
    and r: "face_side_assign me fs q g is_owned owner lni = Inr me'"
  shows "me' = me \<or> (\<exists>le. set_lnodes_face_full me le (face fs) lni = Inr me')"
proof (cases "q = mpirank me")
  case True
  from face_side_assign_local [OF r True] show ?thesis by blast
next
  case False
  with q have "\<not> 0 \<le> q" by simp
  from face_side_assign_skip [OF r False this] show ?thesis by simp
qed

lemma no_ghost_side:
  assumes st: "no_ghost_state me" and sl: "owned_slots (num_owned me) (lnodes me)"
    and v: "0 \<le> lni" "lni < num_owned me"
    and q: "q = mpirank me \<or> q = -1"
    and r: "face_side_assign me fs q g is_owned owner lni = Inr me'"
  shows "no_ghost_state me' \<and> owned_slots (num_owned me') (lnodes me')"
proof -
  from no_ghost_side_assign [OF q r] consider "me' = me"
    | le where "set_lnodes_face_full me le (face fs) lni = Inr me'" by blast
  then show ?thesis
  proof cases
    case 1
    with st sl show ?thesis by simp
  next
    case 2
    from no_ghost_face_full [OF st sl v 2] show ?thesis .
  qed
qed

lemma no_ghost_visit:
  assumes st: "no_ghost_state me" and sl: "owned_slots (num_owned me) (lnodes me)"
    and r: "visit_callback v me = Inr me'"
  shows "no_ghost_state me' \<and> owned_slots (num_owned me') (lnodes me')"
proof (cases v)
  case (Volume vi)
  with r have "iter_volume1 vi me = Inr me'" by simp
  from iter_volume1_Inr [OF this] obtain ln' where
    s: "set_lnodes_corner_center (lnodes me) (lenum me) (num_owned me) = Inr ln'"
    and m: "me' = me\<lparr>lenum := lenum me + 1, num_owned := num_owned me + 1, lnodes := ln'\<rparr>"
    by blast
  note e = set_lnodes_corner_center_Inr [OF s]
  from sl have n: "0 \<le> num_owned me" by (simp add: owned_slots_def)
  have "owned_slots (num_owned me + 1) (lnodes me)"
    by (rule owned_slots_mono [OF sl]) simp
  from owned_slots_store [OF this, of "lenum me * vnodes (lnodes me)" "num_owned me"] e n
  have "owned_slots (num_owned me + 1) ln'" by simp
  with m st show ?thesis by (simp add: no_ghost_state_def)
next
  case Corner
  with r st sl show ?thesis by (simp add: iter_corner1_def)
next
  case (Face fi)
  with r have "iter_face1 fi me = Inr me'" by simp
  from sl have n: "0 \<le> num_owned me" by (simp add: owned_slots_def)
  let ?me1 = "me\<lparr>num_owned := num_owned me + 1\<rparr>"
  have st1: "no_ghost_state ?me1" using st by (simp add: no_ghost_state_def)
  have sl1: "owned_slots (num_owned ?me1) (lnodes ?me1)"
    using owned_slots_mono [OF sl, of "num_owned me + 1"] by simp
  from \<open>iter_face1 fi me = Inr me'\<close> show ?thesis
  proof (cases rule: iter_face1_cases)
    case same
    with st sl show ?thesis by simp
  next
    case (boundary fs le)
    show ?thesis
      by (rule no_ghost_face_full [OF st1 sl1 _ _ boundary(4)]) (use n in simp_all)
  next
    case (conforming fs0 fs1 q0 g0 q1 g1 is_owned owner lni me1 me2)
    from st have g: "ghost me = None" by (simp add: no_ghost_state_def)
    note k0 = no_ghost_side_rank [OF g conforming(5)]
    note k1 = no_ghost_side_rank [OF g conforming(6)]
    from conforming(7) k0 k1 have "is_owned"
      by (auto simp: owner_update_def split: if_splits)
    with assign_lni_Inr [OF conforming(8)] have
      lni: "lni = num_owned me" and me1: "me1 = ?me1" by simp_all
    have v: "0 \<le> lni" "lni < num_owned ?me1" using lni n by simp_all
    have a: "no_ghost_state me2 \<and> owned_slots (num_owned me2) (lnodes me2)"
      by (rule no_ghost_side [OF st1 sl1 v _ conforming(9) [unfolded me1]]) (use k0 in simp)
    have n2: "num_owned me2 = num_owned ?me1" "mpirank me2 = mpirank me"
      using face_side_assign_frame [OF conforming(9)] me1 by simp_all
    show ?thesis
      by (rule no_ghost_side [OF conjunct1 [OF a] conjunct2 [OF a] _ _ _ conforming(10)])
         (use v n2 k1 in simp_all)
  qed
qed

lemma no_ghost_iterate:
  assumes "no_ghost_state me" "owned_slots (num_owned me) (lnodes me)"
    and "p4est_iterate visits me = Inr me'"
  shows "no_ghost_state me' \<and> owned_slots (num_owned me') (lnodes me')"
  using assms
proof (induction visits arbitrary: me)
  case Nil
  then show ?case by (simp add: p4est_iterate_def)
next
  case (Cons v vs)
  from Cons.prems(3) obtain me1 where
    v: "visit_callback v me = Inr me1" and rest: "p4est_iterate vs me1 = Inr me'"
    by (auto simp: p4est_iterate_def split: sum.splits)
  from no_ghost_visit [OF Cons.prems(1,2) v] Cons.IH rest show ?case by blast
qed

lemma trimesh_init_no_ghost:
  assumes "trimesh_init p4 None wfaces = Inr me0"
  shows "no_ghost_state me0 \<and> owned_slots (num_owned me0) (lnodes me0)
       \<and> pereq me0 = [] \<and> written (lnodes me0) = [] \<and> num_owned me0 = 0"
  using assms
  by (auto simp: trimesh_init_def Let_def no_ghost_state_def owned_slots_def split: if_splits)

lemma post_query_reply_no_peers:
  "peers me = [] \<Longrightarrow> post_query_reply me = Inr (me\<lparr>pereq := []\<rparr>)"
  by (simp add: post_query_reply_def)

lemma wait_query_reply_no_peers:
  "peers me = [] \<Longrightarrow> wait_query_reply mem rounds me = Some (Inr me)"
  by (cases rounds) (simp_all add: wait_query_reply_def)

lemma share_owned_count_frame:
  assumes "share_owned_count gathered me = Inr me'"
  shows "peers me' = peers me \<and> ghost me' = ghost me \<and> posted me' = posted me
       \<and> pereq me' = pereq me \<and> mpirank me' = mpirank me
       \<and> element_nodes (lnodes me') = element_nodes (lnodes me)
       \<and> written (lnodes me') = written (lnodes me)"
  using assms
  by (auto simp: share_owned_count_def Let_def split: sum.splits prod.splits if_splits)

lemma trimesh_free_no_ghost:
  "ghost me = None \<Longrightarrow> trimesh_free me = Inr (me\<lparr>goffset := None\<rparr>)"
  by (simp add: trimesh_free_def)

lemma single_init: "trimesh_init p4est_single None True = Inr meta_single_start"
  by code_simp

lemma single_run: "p4est_iterate visits_single meta_single_start = Inr meta_single_enumerated"
  by code_simp

lemma single_offsets:
  "share_owned_count [0, 4] (meta_single_enumerated\<lparr>pereq := []\<rparr>) =
     Inr (meta_single_enumerated\<lparr>pereq := [], goffset := Some [0, 3, 7],
            lnodes := lnodes_single_enumerated\<lparr>owned_count := 3,
                        global_owned_count := [3, 4], global_offset := 0\<rparr>\<rparr>)"
  by code_simp

text \<open>
  Claim C10. With a \<^verbatim>\<open>NULL\<close> ghost argument the constructor creates no ghost-rank
  table, no peer table and no peer record; the enumeration, when it returns, has left
  \<open>num_shared\<close> at \<open>0\<close>, has recorded no remote position and no peer, and every slot it
  stored to holds an owned index \<open>0 \<le> i < num_owned\<close>; the posting phase posts nothing;
  the draining phase returns at once, whatever the transport would report; the release
  phase only drops the offset table. The whole call is the enumeration followed by the
  offset assembly.
\<close>

theorem trimesh_new_without_ghost:
  assumes init: "trimesh_init p4 None wfaces = Inr me0"
    and run: "p4est_iterate visits me0 = Inr me1"
  shows "ghost_rank me0 = None \<and> proc_peer me0 = None \<and> peers me0 = [] \<and> pereq me0 = []
       \<and> ghost_rank me1 = None \<and> proc_peer me1 = None \<and> peers me1 = []
       \<and> remotepos me1 = [] \<and> posted me1 = []
       \<and> num_shared me1 = 0
       \<and> (\<forall>p \<in> set (written (lnodes me1)).
             0 \<le> element_nodes (lnodes me1) ! nat p
             \<and> element_nodes (lnodes me1) ! nat p < num_owned me1)
       \<and> post_query_reply me1 = Inr (me1\<lparr>pereq := []\<rparr>)
       \<and> (\<forall>me3. share_owned_count gathered (me1\<lparr>pereq := []\<rparr>) = Inr me3 \<longrightarrow>
             wait_query_reply mem rounds me3 = Some (Inr me3) \<and> posted me3 = []
             \<and> trimesh_free me3 = Inr (me3\<lparr>goffset := None\<rparr>))
       \<and> p4est_trimesh_new p4 None wfaces visits gathered mem rounds =
           Some (if lenum me1 \<noteq> num_local_elements (lnodes me1)
                   then Inl (Assertion ''me->lenum == le'')
                 else case share_owned_count gathered (me1\<lparr>pereq := []\<rparr>) of
                        Inl e \<Rightarrow> Inl e
                      | Inr me3 \<Rightarrow> Inr (lnodes me3))"
proof -
  note i = trimesh_init_no_ghost [OF init]
  from i have st0: "no_ghost_state me0" and sl0: "owned_slots (num_owned me0) (lnodes me0)"
    by blast+
  from no_ghost_iterate [OF st0 sl0 run] have
    st1: "no_ghost_state me1" and sl1: "owned_slots (num_owned me1) (lnodes me1)"
    by simp_all
  have a: "ghost_rank me0 = None \<and> proc_peer me0 = None \<and> peers me0 = [] \<and> pereq me0 = []"
    using i by (simp add: no_ghost_state_def)
  have b: "ghost_rank me1 = None \<and> proc_peer me1 = None \<and> peers me1 = []
       \<and> remotepos me1 = [] \<and> posted me1 = [] \<and> num_shared me1 = 0"
    using st1 by (simp add: no_ghost_state_def)
  have c: "\<forall>p \<in> set (written (lnodes me1)).
             0 \<le> element_nodes (lnodes me1) ! nat p
             \<and> element_nodes (lnodes me1) ! nat p < num_owned me1"
  proof
    fix p assume p: "p \<in> set (written (lnodes me1))"
    with sl1 have inb: "in_bounds (element_nodes (lnodes me1)) p"
      and lt: "element_nodes (lnodes me1) ! nat p < num_owned me1"
      by (auto simp: owned_slots_def)
    from inb have "element_nodes (lnodes me1) ! nat p \<in> set (element_nodes (lnodes me1))"
      by (auto simp: in_bounds_def)
    with sl1 have "0 \<le> element_nodes (lnodes me1) ! nat p" by (auto simp: owned_slots_def)
    with lt show "0 \<le> element_nodes (lnodes me1) ! nat p
             \<and> element_nodes (lnodes me1) ! nat p < num_owned me1" by simp
  qed
  have d: "post_query_reply me1 = Inr (me1\<lparr>pereq := []\<rparr>)"
    using b by (simp add: post_query_reply_no_peers)
  have e: "wait_query_reply mem rounds me3 = Some (Inr me3) \<and> posted me3 = []
             \<and> trimesh_free me3 = Inr (me3\<lparr>goffset := None\<rparr>)"
    if "share_owned_count gathered (me1\<lparr>pereq := []\<rparr>) = Inr me3" for me3
  proof -
    from share_owned_count_frame [OF that] b st1
    have "peers me3 = []" "posted me3 = []" "ghost me3 = None"
      by (simp_all add: no_ghost_state_def)
    then show ?thesis
      by (simp add: wait_query_reply_no_peers trimesh_free_no_ghost)
  qed
  have f: "p4est_trimesh_new p4 None wfaces visits gathered mem rounds =
           Some (if lenum me1 \<noteq> num_local_elements (lnodes me1)
                   then Inl (Assertion ''me->lenum == le'')
                 else case share_owned_count gathered (me1\<lparr>pereq := []\<rparr>) of
                        Inl e \<Rightarrow> Inl e
                      | Inr me3 \<Rightarrow> Inr (lnodes me3))"
  proof (cases "share_owned_count gathered (me1\<lparr>pereq := []\<rparr>)")
    case (Inl err)
    with init run d show ?thesis
      by (simp add: p4est_trimesh_new_def trimesh_phases_def)
  next
    case (Inr me3)
    with init run d e [OF Inr] show ?thesis
      by (simp add: p4est_trimesh_new_def trimesh_phases_def)
  qed
  from a b c d e f show ?thesis by blast
qed

theorem trimesh_new_without_ghost_witness:
  "p4est_trimesh_new p4est_single None True visits_single [0, 4] (\<lambda>p. 0) [[(0, [])]] =
     Some (Inr (lnodes_single_enumerated\<lparr>owned_count := 3, global_owned_count := [3, 4],
                  global_offset := 0\<rparr>))
   \<and> num_shared meta_single_enumerated = 0 \<and> peers meta_single_enumerated = []"
  using trimesh_new_without_ghost [OF single_init single_run, of "[0, 4]" "\<lambda>p. 0" "[[(0, [])]]"]
    single_offsets
  by (simp add: meta_single_enumerated_def meta_single_start_def lnodes_single_enumerated_def)

subsection \<open>Answering a query\<close>

text \<open>The loop over the received positions returns exactly when each passes its checks.\<close>

lemma smod_slot:
  assumes "0 \<le> g" "v = 9 \<or> v = 25"
  shows "in_bounds pos_is_boundary (g smod v)"
  using assms by (auto simp: in_bounds_def pos_is_boundary_def smod_int_alt_def sgn_if)

lemma resolve_query_eq:
  assumes "k < length qp" and vn: "vnodes ln = 9 \<or> vnodes ln = 25"
  shows "(query_ok mem ln (qp ! k) \<longrightarrow>
            resolve_query mem ln (int k) qp = Inr (qp[k := read_element_nodes mem ln (qp ! k)]))
       \<and> (\<not> query_ok mem ln (qp ! k) \<longrightarrow> (\<exists>e. resolve_query mem ln (int k) qp = Inl (Assertion e)))"
  using assms(1) smod_slot [OF _ vn, of "qp ! k"]
  by (auto simp: resolve_query_def query_ok_def in_bounds_def Let_def)

lemma resolve_steps:
  assumes "i \<le> n" "n \<le> length qp" and vn: "vnodes ln = 9 \<or> vnodes ln = 25"
  shows "(run_steps (resolve_query mem ln) (map int [i..<n]) qp = Inr qp') =
           ((\<forall>k. i \<le> k \<and> k < n \<longrightarrow> query_ok mem ln (qp ! k))
            \<and> length qp' = length qp
            \<and> (\<forall>k < length qp. qp' ! k =
                  (if i \<le> k \<and> k < n then read_element_nodes mem ln (qp ! k) else qp ! k)))"
  using assms(1,2)
proof (induction "n - i" arbitrary: i qp)
  case 0
  then have "i = n" by simp
  then show ?case by (auto intro: nth_equalityI)
next
  case (Suc d)
  then have i: "i < n" "i < length qp" by simp_all
  have upt: "map int [i..<n] = int i # map int [Suc i..<n]" using i by (simp add: upt_conv_Cons)
  show ?case
  proof (cases "query_ok mem ln (qp ! i)")
    case False
    from resolve_query_eq [OF i(2) vn, of mem] False obtain e where
      "resolve_query mem ln (int i) qp = Inl (Assertion e)" by blast
    with False i upt show ?thesis by auto
  next
    case True
    let ?v = "read_element_nodes mem ln (qp ! i)"
    let ?qp1 = "qp[i := ?v]"
    from resolve_query_eq [OF i(2) vn, of mem] True
    have step: "resolve_query mem ln (int i) qp = Inr ?qp1" by simp
    have ih: "(run_steps (resolve_query mem ln) (map int [Suc i..<n]) ?qp1 = Inr qp') =
           ((\<forall>k. Suc i \<le> k \<and> k < n \<longrightarrow> query_ok mem ln (?qp1 ! k))
            \<and> length qp' = length ?qp1
            \<and> (\<forall>k < length ?qp1. qp' ! k =
                  (if Suc i \<le> k \<and> k < n then read_element_nodes mem ln (?qp1 ! k)
                   else ?qp1 ! k)))"
      by (rule Suc.hyps(1)) (use Suc.hyps(2) Suc.prems i in simp_all)
    have a: "(\<forall>k. Suc i \<le> k \<and> k < n \<longrightarrow> query_ok mem ln (?qp1 ! k))
           = (\<forall>k. i \<le> k \<and> k < n \<longrightarrow> query_ok mem ln (qp ! k))"
    proof
      assume h: "\<forall>k. Suc i \<le> k \<and> k < n \<longrightarrow> query_ok mem ln (?qp1 ! k)"
      show "\<forall>k. i \<le> k \<and> k < n \<longrightarrow> query_ok mem ln (qp ! k)"
      proof (intro allI impI)
        fix k assume k: "i \<le> k \<and> k < n"
        show "query_ok mem ln (qp ! k)"
        proof (cases "k = i")
          case True with \<open>query_ok mem ln (qp ! i)\<close> show ?thesis by simp
        next
          case False
          with k h have "query_ok mem ln (?qp1 ! k)" by simp
          with False show ?thesis by simp
        qed
      qed
    next
      assume h: "\<forall>k. i \<le> k \<and> k < n \<longrightarrow> query_ok mem ln (qp ! k)"
      show "\<forall>k. Suc i \<le> k \<and> k < n \<longrightarrow> query_ok mem ln (?qp1 ! k)"
      proof (intro allI impI)
        fix k assume k: "Suc i \<le> k \<and> k < n"
        then have "k \<noteq> i" by simp
        with k h show "query_ok mem ln (?qp1 ! k)" by simp
      qed
    qed
    have b: "(\<forall>k < length ?qp1. qp' ! k =
                  (if Suc i \<le> k \<and> k < n then read_element_nodes mem ln (?qp1 ! k)
                   else ?qp1 ! k))
           = (\<forall>k < length qp. qp' ! k =
                  (if i \<le> k \<and> k < n then read_element_nodes mem ln (qp ! k) else qp ! k))"
    proof -
      have "(if Suc i \<le> k \<and> k < n then read_element_nodes mem ln (?qp1 ! k) else ?qp1 ! k)
          = (if i \<le> k \<and> k < n then read_element_nodes mem ln (qp ! k) else qp ! k)"
        if "k < length qp" for k
        using that i by (cases "k = i") auto
      then show ?thesis by simp
    qed
    show ?thesis
      unfolding upt using step ih a b by simp
  qed
qed

lemma resolve_queries_result:
  assumes "length qp = nat lbc" and vn: "vnodes ln = 9 \<or> vnodes ln = 25"
  shows "(resolve_queries mem ln lbc qp = Inr qp') =
           ((\<forall>g \<in> set qp. query_ok mem ln g) \<and> qp' = map (read_element_nodes mem ln) qp)"
proof -
  have "(resolve_queries mem ln lbc qp = Inr qp') =
           ((\<forall>k. 0 \<le> k \<and> k < length qp \<longrightarrow> query_ok mem ln (qp ! k))
            \<and> length qp' = length qp
            \<and> (\<forall>k < length qp. qp' ! k =
                  (if 0 \<le> k \<and> k < length qp then read_element_nodes mem ln (qp ! k)
                   else qp ! k)))"
    unfolding resolve_queries_def assms(1) [symmetric]
    by (rule resolve_steps) (simp_all add: vn)
  also have "\<dots> = ((\<forall>g \<in> set qp. query_ok mem ln g)
                    \<and> qp' = map (read_element_nodes mem ln) qp)"
  proof -
    have "(\<forall>k. 0 \<le> k \<and> k < length qp \<longrightarrow> query_ok mem ln (qp ! k))
            = (\<forall>g \<in> set qp. query_ok mem ln g)"
      by (metis in_set_conv_nth le0)
    moreover have "(length qp' = length qp
            \<and> (\<forall>k < length qp. qp' ! k =
                  (if 0 \<le> k \<and> k < length qp then read_element_nodes mem ln (qp ! k)
                   else qp ! k)))
         = (qp' = map (read_element_nodes mem ln) qp)"
      by (auto intro: nth_equalityI)
    ultimately show ?thesis by simp
  qed
  finally show ?thesis .
qed

lemma resolve_queries_fails:
  assumes "length qp = nat lbc" and vn: "vnodes ln = 9 \<or> vnodes ln = 25"
    and "\<not> (\<forall>g \<in> set qp. query_ok mem ln g)"
  shows "\<exists>e. resolve_queries mem ln lbc qp = Inl e"
proof (cases "resolve_queries mem ln lbc qp")
  case (Inl e)
  then show ?thesis by blast
next
  case (Inr qp')
  with resolve_queries_result [OF assms(1,2), of mem qp'] assms(3) show ?thesis by simp
qed


lemma wait_round_single:
  "wait_round mem [(j, dat)] (me, nw) =
     (case mpi_complete (j, dat) me of
        Inl e \<Rightarrow> Inl e
      | Inr me1 \<Rightarrow> wait_handle mem j (me1, nw))"
  by (simp add: wait_round_def split: sum.splits)



























lemma share_owned_count_lnodes:
  assumes "share_owned_count gathered me = Inr me'"
  shows "vnodes (lnodes me') = vnodes (lnodes me) \<and> owned_count (lnodes me') = num_owned me
       \<and> element_nodes (lnodes me') = element_nodes (lnodes me)
       \<and> peers me' = peers me \<and> pereq me' = pereq me \<and> posted me' = posted me
       \<and> mpirank me' = mpirank me"
  using assms
  by (auto simp: share_owned_count_def Let_def split: sum.splits prod.splits if_splits)

text \<open>The two example processes, phase by phase.\<close>

lemma owner_example_init:
  "trimesh_init p4est_owner_example (Some ghost_owner_example) True = Inr owner_start_example"
  by code_simp








text \<open>
  Two processes that are each other's only peer: the loop of the owner returns exactly when
  every received position passes its checks, and the loop of the querier returns with the
  reply in its buffer.
\<close>

lemma owner_loop_returns:
  assumes post: "post_query_reply mo0 = Inr mo1"
    and share: "share_owned_count gathered mo1 = Inr mo"
    and one: "length (peers mo0) = 1"
    and rk: "mpirank mo0 < rank (peers mo0 ! 0)"
    and cnt: "bufcount (peers mo0 ! 0) = int (length B)"
    and vn: "vnodes (lnodes mo0) = 9 \<or> vnodes (lnodes mo0) = 25"
  shows "(\<exists>mo'. wait_query_reply mem [[(0, B)], [(0, d)]] mo = Some (Inr mo'))
           = (\<forall>g \<in> set B. query_ok mem (lnodes mo) g)"
proof -
  note op = post_query_reply_result [OF post]
  note os = share_owned_count_lnodes [OF share]
  let ?p = "peers mo ! 0"
  from op one rk have p: "peers mo1 ! 0 = (peers mo0 ! 0)
        \<lparr>querypos := replicate (nat (bufcount (peers mo0 ! 0))) 0, done_flag := 1\<rparr>"
    "pereq mo1 ! 0 = Irecv (bufcount (peers mo0 ! 0)) (rank (peers mo0 ! 0))
                            P4EST_COMM_TNODES_QUERY"
    by auto
  have l: "length (peers mo) = 1" "length (pereq mo) = 1" "peers mo \<noteq> []" "pereq mo \<noteq> []"
    using op os one by auto
  have m: "mpirank mo = mpirank mo0" "vnodes (lnodes mo) = 9 \<or> vnodes (lnodes mo) = 25"
    using op os vn by simp_all
  have f: "done_flag ?p = 1" "bufcount ?p = int (length B)" "length (querypos ?p) = length B"
    "rank ?p = rank (peers mo0 ! 0)"
    "pereq mo ! 0 = Irecv (int (length B)) (rank (peers mo0 ! 0)) P4EST_COMM_TNODES_QUERY"
    using p os cnt by simp_all
  have c: "mpi_complete (0, B) mo =
           Inr (mo\<lparr>pereq := (pereq mo)[0 := Request_null],
                   peers := (peers mo)[0 := ?p\<lparr>querypos := B\<rparr>]\<rparr>)"
    using l f by (simp add: mpi_complete_def Let_def in_bounds_def)
  show ?thesis
  proof (cases "\<forall>g \<in> set B. query_ok mem (lnodes mo) g")
    case True
    then have res: "resolve_queries mem (lnodes mo) (int (length B)) B
                      = Inr (map (read_element_nodes mem (lnodes mo)) B)"
      using resolve_queries_result [of B "int (length B)" "lnodes mo" mem] m by simp
    from c l f m rk res True show ?thesis
      by (simp add: wait_query_reply_def wait_round_single wait_handle_def mpi_complete_def
            in_bounds_def Let_def)
  next
    case False
    from resolve_queries_fails [of B "int (length B)" "lnodes mo" mem] m False obtain e where
      "resolve_queries mem (lnodes mo) (int (length B)) B = Inl e" by auto
    with c l f m rk False show ?thesis
      by (simp add: wait_query_reply_def wait_round_single wait_handle_def in_bounds_def Let_def)
  qed
qed

lemma querier_loop_returns:
  assumes post: "post_query_reply mq0 = Inr mq1"
    and share: "share_owned_count gathered mq1 = Inr mq"
    and one: "length (peers mq0) = 1"
    and rk: "rank (peers mq0 ! 0) < mpirank mq0"
    and len: "length R = length (querypos (peers mq0 ! 0))"
  shows "\<exists>mq'. wait_query_reply mem [[(0, d)], [(0, R)]] mq = Some (Inr mq')
           \<and> querypos (peers mq' ! 0) = R"
proof -
  note op = post_query_reply_result [OF post]
  note os = share_owned_count_lnodes [OF share]
  let ?p = "peers mq ! 0"
  from op one rk have p: "peers mq1 ! 0 = (peers mq0 ! 0)
        \<lparr>bufcount := int (length (querypos (peers mq0 ! 0))), done_flag := 3\<rparr>"
    "pereq mq1 ! 0 = Isend (querypos (peers mq0 ! 0)) (rank (peers mq0 ! 0))
                            P4EST_COMM_TNODES_QUERY"
    by auto
  have l: "length (peers mq) = 1" "length (pereq mq) = 1" "peers mq \<noteq> []" "pereq mq \<noteq> []"
    using op os one by auto
  have m: "mpirank mq = mpirank mq0" using op os by simp
  have f: "done_flag ?p = 3" "bufcount ?p = int (length R)" "length (querypos ?p) = length R"
    "rank ?p = rank (peers mq0 ! 0)"
    "pereq mq ! 0 = Isend (querypos (peers mq0 ! 0)) (rank (peers mq0 ! 0))
                            P4EST_COMM_TNODES_QUERY"
    using p os len by simp_all
  from l f m rk show ?thesis
    by (simp add: wait_query_reply_def wait_round_single wait_handle_def mpi_complete_def
          in_bounds_def Let_def)
qed



subsection \<open>Ranges of the integers\<close>

text \<open>
  When an element is visited before any face and every visited face has a local side, the
  counters of the enumeration stay within \<^verbatim>\<open>p4est_locidx_t\<close>: each increment then
  comes with a store to a slot that is stored to once, and the number of slots has been
  checked against \<^verbatim>\<open>P4EST_LOCIDX_MAX\<close>. The prefix sums over the gathered counts stay
  within \<^verbatim>\<open>p4est_gloidx_t\<close>.
\<close>

lemma sum_list_bound:
  assumes "\<forall>c \<in> set (cs :: int list). c \<le> b"
  shows "sum_list cs \<le> int (length cs) * b"
  using assms by (induction cs) (auto simp: algebra_simps)

lemma goffset_fits_gloidx:
  assumes c: "\<forall>c \<in> set counts. 0 \<le> c \<and> c \<le> P4EST_LOCIDX_MAX"
    and s: "int (length counts) \<le> P4EST_LOCIDX_MAX"
  shows "0 \<le> sum_list (take r counts) \<and> sum_list (take r counts) < 2 ^ 63"
proof -
  let ?cs = "take r counts"
  have m: "\<forall>c \<in> set ?cs. 0 \<le> c \<and> c \<le> P4EST_LOCIDX_MAX"
    using c by (auto dest: in_set_takeD)
  then have lo: "0 \<le> sum_list ?cs" by (simp add: sum_list_nonneg)
  have "sum_list ?cs \<le> int (length ?cs) * P4EST_LOCIDX_MAX"
    by (rule sum_list_bound) (use m in simp)
  also have "\<dots> \<le> P4EST_LOCIDX_MAX * P4EST_LOCIDX_MAX"
  proof (rule mult_right_mono)
    show "int (length ?cs) \<le> P4EST_LOCIDX_MAX" using s by simp
    show "0 \<le> P4EST_LOCIDX_MAX" by (simp add: P4EST_LOCIDX_MAX_def)
  qed
  also have "\<dots> < 2 ^ 63" by (simp add: P4EST_LOCIDX_MAX_def)
  finally show ?thesis using lo by simp
qed

lemma face_side_assign_written:
  assumes r: "face_side_assign me fs q g is_owned owner lni = Inr me'"
  shows "length (written (lnodes me'))
           = length (written (lnodes me)) + (if q = mpirank me then 1 else 0)"
proof (cases "q = mpirank me")
  case True
  from face_side_assign_local [OF r True] obtain le where
    "set_lnodes_face_full me le (face fs) lni = Inr me'" by blast
  from set_lnodes_face_full_Inr [OF this] True show ?thesis by simp
next
  case False
  with face_side_assign_frame [OF r] show ?thesis by simp
qed

lemma visit_counters_written:
  assumes r: "visit_callback v me = Inr me'"
    and loc: "local_faces [v]"
  shows "num_owned me' + num_shared me' - (num_owned me + num_shared me)
           \<le> int (length (written (lnodes me'))) - int (length (written (lnodes me)))"
proof (cases v)
  case (Volume vi)
  with r have "iter_volume1 vi me = Inr me'" by simp
  from iter_volume1_Inr [OF this] obtain ln' where
    s: "set_lnodes_corner_center (lnodes me) (lenum me) (num_owned me) = Inr ln'"
    and m: "me' = me\<lparr>lenum := lenum me + 1, num_owned := num_owned me + 1, lnodes := ln'\<rparr>"
    by blast
  from set_lnodes_corner_center_Inr [OF s] m show ?thesis by simp
next
  case Corner
  with r show ?thesis by (simp add: iter_corner1_def)
next
  case (Face fi)
  with r have "iter_face1 fi me = Inr me'" by simp
  then show ?thesis
  proof (cases rule: iter_face1_cases)
    case same
    then show ?thesis by simp
  next
    case (boundary fs le)
    from set_lnodes_face_full_Inr [OF boundary(4)] show ?thesis by simp
  next
    case (conforming fs0 fs1 q0 g0 q1 g1 is_owned owner lni me1 me2)
    have l0: "side_is_local fs0 \<Longrightarrow> q0 = mpirank me"
      using face_side_rank_value [OF conforming(5)] conforming(2)
      by (auto simp: side_is_local_def is_hanging_def split: face_side_data.splits)
    have l1: "side_is_local fs1 \<Longrightarrow> q1 = mpirank me"
      using face_side_rank_value [OF conforming(6)] conforming(3)
      by (auto simp: side_is_local_def is_hanging_def split: face_side_data.splits)
    from loc Face conforming(1) l0 l1 have q: "q0 = mpirank me \<or> q1 = mpirank me" by auto
    note l = assign_lni_Inr [OF conforming(8)]
    have m1: "lnodes me1 = lnodes me" "mpirank me1 = mpirank me"
      "num_owned me1 + num_shared me1 = num_owned me + num_shared me + 1"
      using l by (cases is_owned; simp)+
    note f0 = face_side_assign_frame [OF conforming(9)]
    note f1 = face_side_assign_frame [OF conforming(10)]
    note w0 = face_side_assign_written [OF conforming(9)]
    note w1 = face_side_assign_written [OF conforming(10)]
    from q m1 f0 f1 w0 w1 show ?thesis by auto
  qed
qed

lemma iterate_counters_written:
  assumes "p4est_iterate visits me = Inr me'" "local_faces visits"
  shows "num_owned me' + num_shared me' - (num_owned me + num_shared me)
           \<le> int (length (written (lnodes me'))) - int (length (written (lnodes me)))"
  using assms
proof (induction visits arbitrary: me)
  case Nil
  then show ?case by (simp add: p4est_iterate_def)
next
  case (Cons v vs)
  from Cons.prems(1) obtain me1 where
    v: "visit_callback v me = Inr me1" and rest: "p4est_iterate vs me1 = Inr me'"
    by (auto simp: p4est_iterate_def split: sum.splits)
  from Cons.prems(2) have lf: "local_faces [v]" "local_faces vs" by (cases v; simp)+
  from visit_counters_written [OF v lf(1)] Cons.IH [OF rest lf(2)] show ?case by simp
qed

lemma distinct_in_bounds_length:
  assumes "distinct ws" "\<forall>p \<in> set ws. in_bounds xs p"
  shows "length ws \<le> length xs"
proof -
  have "set ws \<subseteq> int ` {..<length xs}"
  proof
    fix p assume "p \<in> set ws"
    with assms(2) have "0 \<le> p" "nat p < length xs" by (auto simp: in_bounds_def)
    then have "p = int (nat p)" "nat p \<in> {..<length xs}" by simp_all
    then show "p \<in> int ` {..<length xs}" by (rule image_eqI)
  qed
  then have "card (set ws) \<le> card (int ` {..<length xs})"
    by (intro card_mono) simp_all
  also have "\<dots> \<le> length xs" using card_image_le [of "{..<length xs}" int] by simp
  finally show ?thesis using assms(1) by (simp add: distinct_card)
qed

lemma trimesh_init_Inr:
  assumes "trimesh_init p4 gho wfaces = Inr me0"
  shows "written (lnodes me0) = [] \<and> num_owned me0 = 0 \<and> num_shared me0 = 0
       \<and> lenum me0 = 0 \<and> peers me0 = []
       \<and> int (length (element_nodes (lnodes me0))) \<le> P4EST_LOCIDX_MAX"
  using assms
  by (auto simp: trimesh_init_def Let_def split: option.splits sum.splits if_splits)

lemma counters_fit_locidx:
  assumes init: "trimesh_init p4 gho wfaces = Inr me0"
    and order: "volume_first visits" "local_faces visits"
    and run: "p4est_iterate visits me0 = Inr me1"
  shows "0 \<le> num_owned me1 \<and> 0 \<le> num_shared me1
       \<and> num_owned me1 + num_shared me1 \<le> P4EST_LOCIDX_MAX"
proof -
  note i = trimesh_init_Inr [OF init]
  have s0: "slots_once (lenum me0) (lnodes me0)" using i by (simp add: slots_once_def)
  from slots_once_volume_first [OF s0 _ _ order(1) run] i
  have once: "slots_once (lenum me1) (lnodes me1)" by simp
  then have "length (written (lnodes me1)) \<le> length (element_nodes (lnodes me1))"
    by (intro distinct_in_bounds_length) (auto simp: slots_once_def)
  moreover from stores_logged_iterate [OF run]
  have "length (element_nodes (lnodes me1)) = length (element_nodes (lnodes me0))"
    by (simp add: stores_logged_def)
  moreover from iterate_counters_written [OF run order(2)] i
  have "num_owned me1 + num_shared me1 \<le> int (length (written (lnodes me1)))" by simp
  moreover have "0 \<le> num_owned me1" "0 \<le> num_shared me1"
  proof -
    have "num_owned m \<le> num_owned m' \<and> num_shared m \<le> num_shared m'"
      if "p4est_iterate vs m = Inr m'" for vs m m'
      using that
    proof (induction vs arbitrary: m)
      case Nil
      then show ?case by (simp add: p4est_iterate_def)
    next
      case (Cons v vs)
      from Cons.prems obtain m1 where
        v: "visit_callback v m = Inr m1" and rest: "p4est_iterate vs m1 = Inr m'"
        by (auto simp: p4est_iterate_def split: sum.splits)
      from visit_callback_counters [OF v] Cons.IH [OF rest] show ?case by simp
    qed
    from this [OF run] i show "0 \<le> num_owned me1" "0 \<le> num_shared me1" by simp_all
  qed
  ultimately show ?thesis using i by simp
qed

end
